theory Spec2Isabelle
  imports Main "HOL-Library.AList"
begin

section \<open>Shared data: numbers, options, insertion-ordered containers\<close>

text \<open>
  The caches of \<^verbatim>\<open>src/cache.ts\<close> compare a \<^verbatim>\<open>maxAge\<close> with
  \<^verbatim>\<open>Number.POSITIVE_INFINITY\<close>, so the numbers that reach them are modelled as the
  integers together with that one infinite value. Times (\<^verbatim>\<open>Date.now()\<close>) are integers of
  milliseconds and are passed to every operation that reads the clock.
\<close>

datatype jsnum = Fin int | PosInf

text \<open>\<^verbatim>\<open>Number.MAX_SAFE_INTEGER\<close>, the default of \<^verbatim>\<open>expiry.FromMaybe\<close>.\<close>

definition MAX_SAFE_INTEGER :: int where
  "MAX_SAFE_INTEGER = 9007199254740991"

text \<open>
  \<^verbatim>\<open>interface CacheOptions\<close>. A capacity is an integer: the caches are specified for
  a positive integer \<^verbatim>\<open>maxSize\<close>. An absent \<^verbatim>\<open>maxAge\<close> is \<open>None\<close>; the callback
  \<^verbatim>\<open>onEviction\<close> is modelled by whether it is installed, and its invocations are recorded
  in the cache state as the list of the argument pairs, in call order. What the callback
  does, an exception it may raise included, is outside the model.
\<close>

record CacheOptions =
  maxSize :: int
  maxAge :: "jsnum option"
  onEviction :: bool

text \<open>\<^verbatim>\<open>options.maxAge || Number.POSITIVE_INFINITY\<close>: absent and \<open>0\<close> are falsy.\<close>

definition maxAge_or_infinity :: "jsnum option \<Rightarrow> jsnum" where
  "maxAge_or_infinity m =
     (case m of
        None \<Rightarrow> PosInf
      | Some PosInf \<Rightarrow> PosInf
      | Some (Fin n) \<Rightarrow> (if n = 0 then PosInf else Fin n))"

text \<open>The destructuring default \<^verbatim>\<open>{ maxAge = this.maxAge } = {}\<close> of \<^verbatim>\<open>set\<close>.\<close>

definition entry_maxAge :: "jsnum option \<Rightarrow> jsnum \<Rightarrow> jsnum" where
  "entry_maxAge opt dflt = (case opt of None \<Rightarrow> dflt | Some m \<Rightarrow> m)"

text \<open>
  \<^verbatim>\<open>maxAge !== Number.POSITIVE_INFINITY ? Just(Date.now() + maxAge) : Nothing()\<close>.
\<close>

definition expiry_of :: "int \<Rightarrow> jsnum \<Rightarrow> int option" where
  "expiry_of now m = (case m of PosInf \<Rightarrow> None | Fin n \<Rightarrow> Some (now + n))"

text \<open>\<^verbatim>\<open>item.expiry.FromMaybe(Number.MAX_SAFE_INTEGER) <= Date.now()\<close>.\<close>

definition is_expired :: "int option \<Rightarrow> int \<Rightarrow> bool" where
  "is_expired e now \<longleftrightarrow> (case e of None \<Rightarrow> MAX_SAFE_INTEGER | Some t \<Rightarrow> t) \<le> now"

text \<open>
  A JavaScript \<^verbatim>\<open>Set\<close> keeps its members in insertion order: a list without
  duplicates. A JavaScript \<^verbatim>\<open>Map\<close> is an association list in insertion order:
  \<^verbatim>\<open>get\<close> is \<^const>\<open>map_of\<close>, \<^verbatim>\<open>set\<close> is \<^const>\<open>AList.update\<close> (in place when
  the key exists, at the end otherwise) and \<^verbatim>\<open>delete\<close> is \<^const>\<open>AList.delete\<close>.
\<close>

definition set_add :: "'a \<Rightarrow> 'a list \<Rightarrow> 'a list" where
  "set_add x xs = (if x \<in> set xs then xs else xs @ [x])"

definition set_delete :: "'a \<Rightarrow> 'a list \<Rightarrow> 'a list" where
  "set_delete x xs = removeAll x xs"

text \<open>\<^verbatim>\<open>new Map(pairs)\<close>: the pairs are inserted one after the other.\<close>

definition new_Map :: "('a \<times> 'b) list \<Rightarrow> ('a \<times> 'b) list" where
  "new_Map ps = foldl (\<lambda>m p. AList.update (fst p) (snd p) m) [] ps"

datatype cache_error = TypeError | NothingUnwrapped


section \<open>The LFU cache\<close>

record ('k, 'v) lfu_node =
  f_key :: 'k
  f_val :: 'v
  f_freq :: nat
  f_expiry :: "int option"

text \<open>
  The fields of \<^verbatim>\<open>class LFUCache\<close>. A node object is reachable only through the index
  \<^verbatim>\<open>cache\<close>, under the key it was created with, so the index stores the nodes themselves
  and a mutation of a node is an in-place update of its index entry.
\<close>

record ('k, 'v) lfu_state =
  lfu_capacity :: int
  lfu_cache :: "('k \<times> ('k, 'v) lfu_node) list"
  lfu_freqMap :: "(nat \<times> 'k list) list"
  lfu_minFreq :: nat
  lfu_size :: int
  lfu_maxAge :: jsnum
  lfu_onEviction :: bool
  lfu_calls :: "('k \<times> 'v) list"

definition LFUCache :: "CacheOptions \<Rightarrow> ('k, 'v) lfu_state" where
  "LFUCache options =
     \<lparr> lfu_capacity = maxSize options,
       lfu_cache = [],
       lfu_freqMap = [],
       lfu_minFreq = 0,
       lfu_size = 0,
       lfu_maxAge = maxAge_or_infinity (maxAge options),
       lfu_onEviction = onEviction options,
       lfu_calls = [] \<rparr>"

definition lfu_updateFrequency ::
  "('k, 'v) lfu_node \<Rightarrow> ('k, 'v) lfu_state \<Rightarrow> ('k, 'v) lfu_state" where
  "lfu_updateFrequency node s =
     (let freq = f_freq node;
          fm1 = (case map_of (lfu_freqMap s) freq of
                   None \<Rightarrow> lfu_freqMap s
                 | Some ks \<Rightarrow> AList.update freq (set_delete (f_key node) ks) (lfu_freqMap s));
          emptied = (map_of fm1 freq = Some []);
          fm2 = (if emptied then AList.delete freq fm1 else fm1);
          mf = (if emptied \<and> lfu_minFreq s = freq then lfu_minFreq s + 1 else lfu_minFreq s);
          node' = node\<lparr>f_freq := freq + 1\<rparr>;
          fm3 = (if map_of fm2 (f_freq node') = None
                 then AList.update (f_freq node') [] fm2 else fm2);
          fm4 = (case map_of fm3 (f_freq node') of
                   None \<Rightarrow> fm3
                 | Some ks \<Rightarrow> AList.update (f_freq node') (set_add (f_key node') ks) fm3)
      in s\<lparr>lfu_cache := AList.update (f_key node') node' (lfu_cache s),
           lfu_freqMap := fm4,
           lfu_minFreq := mf\<rparr>)"

text \<open>
  \<^verbatim>\<open>evict\<close>. On an empty bucket \<^verbatim>\<open>keys.values().next().value\<close> is
  \<^verbatim>\<open>undefined\<close>, which is no key of the index: the bucket is dropped and nothing else
  happens.
\<close>

definition lfu_evict :: "('k, 'v) lfu_state \<Rightarrow> ('k, 'v) lfu_state" where
  "lfu_evict s =
     (case map_of (lfu_freqMap s) (lfu_minFreq s) of
        None \<Rightarrow> s
      | Some keys \<Rightarrow>
          (case keys of
             [] \<Rightarrow> s\<lparr>lfu_freqMap := AList.delete (lfu_minFreq s) (lfu_freqMap s)\<rparr>
           | key # _ \<Rightarrow>
               (let keys' = set_delete key keys;
                    fm = (if keys' = [] then AList.delete (lfu_minFreq s) (lfu_freqMap s)
                          else AList.update (lfu_minFreq s) keys' (lfu_freqMap s));
                    s1 = s\<lparr>lfu_freqMap := fm\<rparr>
                in (case map_of (lfu_cache s1) key of
                      None \<Rightarrow> s1
                    | Some node \<Rightarrow>
                        s1\<lparr>lfu_cache := AList.delete key (lfu_cache s1),
                           lfu_size := lfu_size s1 - 1,
                           lfu_calls := (if lfu_onEviction s1
                                         then lfu_calls s1 @ [(key, f_val node)]
                                         else lfu_calls s1)\<rparr>))))"

definition lfu_set ::
  "int \<Rightarrow> 'k \<Rightarrow> 'v \<Rightarrow> jsnum option \<Rightarrow> ('k, 'v) lfu_state \<Rightarrow> ('k, 'v) lfu_state" where
  "lfu_set now key value opt s =
     (let expiry = expiry_of now (entry_maxAge opt (lfu_maxAge s))
      in (case map_of (lfu_cache s) key of
            Some node \<Rightarrow>
              lfu_updateFrequency (node\<lparr>f_val := value, f_expiry := expiry\<rparr>)
                (s\<lparr>lfu_cache :=
                     AList.update key (node\<lparr>f_val := value, f_expiry := expiry\<rparr>) (lfu_cache s)\<rparr>)
          | None \<Rightarrow>
              (let s1 = (if lfu_size s \<ge> lfu_capacity s then lfu_evict s else s);
                   node = \<lparr>f_key = key, f_val = value, f_freq = 1, f_expiry = expiry\<rparr>
               in s1\<lparr>lfu_cache := AList.update key node (lfu_cache s1),
                     lfu_freqMap :=
                       (case map_of (lfu_freqMap s1) 1 of
                          None \<Rightarrow> AList.update 1 [key] (lfu_freqMap s1)
                        | Some ks \<Rightarrow> AList.update 1 (set_add key ks) (lfu_freqMap s1)),
                     lfu_minFreq := 1,
                     lfu_size := lfu_size s1 + 1\<rparr>)))"

definition lfu_delete :: "'k \<Rightarrow> ('k, 'v) lfu_state \<Rightarrow> bool \<times> ('k, 'v) lfu_state" where
  "lfu_delete key s =
     (case map_of (lfu_cache s) key of
        None \<Rightarrow> (False, s)
      | Some node \<Rightarrow>
          (let freq = f_freq node;
               fm1 = (case map_of (lfu_freqMap s) freq of
                        None \<Rightarrow> lfu_freqMap s
                      | Some ks \<Rightarrow> AList.update freq (set_delete key ks) (lfu_freqMap s));
               emptied = (map_of fm1 freq = Some []);
               fm2 = (if emptied then AList.delete freq fm1 else fm1);
               mf = (if emptied \<and> lfu_minFreq s = freq then lfu_minFreq s + 1
                     else lfu_minFreq s)
           in (True, s\<lparr>lfu_freqMap := fm2,
                       lfu_minFreq := mf,
                       lfu_cache := AList.delete key (lfu_cache s),
                       lfu_size := lfu_size s - 1\<rparr>)))"

definition lfu_deleteIfExpired ::
  "int \<Rightarrow> 'k \<Rightarrow> ('k, 'v) lfu_node \<Rightarrow> ('k, 'v) lfu_state \<Rightarrow> bool \<times> ('k, 'v) lfu_state" where
  "lfu_deleteIfExpired now key item s =
     (if is_expired (f_expiry item) now then (True, snd (lfu_delete key s)) else (False, s))"

definition lfu_getOrDeleteIfExpired ::
  "int \<Rightarrow> 'k \<Rightarrow> ('k, 'v) lfu_node \<Rightarrow> ('k, 'v) lfu_state \<Rightarrow> 'v option \<times> ('k, 'v) lfu_state" where
  "lfu_getOrDeleteIfExpired now key item s =
     (case lfu_deleteIfExpired now key item s of
        (True, s') \<Rightarrow> (None, s')
      | (False, s') \<Rightarrow> (Some (f_val item), lfu_updateFrequency item s'))"

definition lfu_peek :: "int \<Rightarrow> 'k \<Rightarrow> ('k, 'v) lfu_state \<Rightarrow> 'v option \<times> ('k, 'v) lfu_state" where
  "lfu_peek now key s =
     (case map_of (lfu_cache s) key of
        Some item \<Rightarrow> lfu_getOrDeleteIfExpired now key item s
      | None \<Rightarrow> (None, s))"

definition lfu_get :: "int \<Rightarrow> 'k \<Rightarrow> ('k, 'v) lfu_state \<Rightarrow> 'v option \<times> ('k, 'v) lfu_state" where
  "lfu_get now key s =
     (case map_of (lfu_cache s) key of
        Some node \<Rightarrow> lfu_getOrDeleteIfExpired now key node s
      | None \<Rightarrow> (None, s))"

definition lfu_has :: "'k \<Rightarrow> ('k, 'v) lfu_state \<Rightarrow> bool" where
  "lfu_has key s \<longleftrightarrow> map_of (lfu_cache s) key \<noteq> None"

definition lfu_clear :: "('k, 'v) lfu_state \<Rightarrow> ('k, 'v) lfu_state" where
  "lfu_clear s = s\<lparr>lfu_cache := [], lfu_freqMap := [], lfu_minFreq := 0, lfu_size := 0\<rparr>"

definition lfu_maxSizeValue :: "('k, 'v) lfu_state \<Rightarrow> int" where
  "lfu_maxSizeValue s = lfu_capacity s"

text \<open>
  \<^verbatim>\<open>entriesAscendingInternal\<close>, drained as \<^verbatim>\<open>resize\<close> drains it. The generator walks
  the index in insertion order; an expired entry is deleted, which removes only the entry
  under the cursor, so the walk visits the entries the index held when it started.
\<close>

fun lfu_entries_loop ::
  "int \<Rightarrow> ('k \<times> ('k, 'v) lfu_node) list \<Rightarrow> ('k, 'v) lfu_state \<Rightarrow>
     ('k \<times> ('k, 'v) lfu_node) list \<times> ('k, 'v) lfu_state" where
  "lfu_entries_loop now [] s = ([], s)"
| "lfu_entries_loop now ((key, item) # rest) s =
     (case lfu_deleteIfExpired now key item s of
        (True, s') \<Rightarrow> lfu_entries_loop now rest s'
      | (False, s') \<Rightarrow>
          (case lfu_entries_loop now rest s' of (items, s'') \<Rightarrow> ((key, item) # items, s'')))"

definition lfu_entriesAscendingInternal ::
  "int \<Rightarrow> ('k, 'v) lfu_state \<Rightarrow> ('k \<times> ('k, 'v) lfu_node) list \<times> ('k, 'v) lfu_state" where
  "lfu_entriesAscendingInternal now s = lfu_entries_loop now (lfu_cache s) s"

definition lfu_emitEvictions ::
  "('k \<times> ('k, 'v) lfu_node) list \<Rightarrow> ('k, 'v) lfu_state \<Rightarrow> ('k, 'v) lfu_state" where
  "lfu_emitEvictions m s =
     (if \<not> lfu_onEviction s then s
      else s\<lparr>lfu_calls := lfu_calls s @ map (\<lambda>p. (fst p, f_val (snd p))) m\<rparr>)"

definition lfu_resize ::
  "int \<Rightarrow> int \<Rightarrow> ('k, 'v) lfu_state \<Rightarrow> cache_error + ('k, 'v) lfu_state" where
  "lfu_resize now newSize s =
     (if newSize \<le> 0 then Inl TypeError
      else (case lfu_entriesAscendingInternal now s of
              (items, s1) \<Rightarrow>
                (let removeCount = int (length items) - newSize
                 in if removeCount > 0
                    then Inr ((lfu_emitEvictions (new_Map (take (nat removeCount) items)) s1)
                               \<lparr>lfu_cache := new_Map (drop (nat removeCount) items),
                                lfu_size := newSize\<rparr>)
                    else Inr (s1\<lparr>lfu_cache := new_Map items,
                                 lfu_size := int (length items)\<rparr>))))"


section \<open>The LRU cache\<close>

text \<open>
  An \<^verbatim>\<open>LRUNode\<close> is linked to its neighbours by references, and the index, the list
  ends and the neighbours all share the node objects. The nodes therefore live in a store:
  a list of nodes in which the position of a node is its reference. A new node is put at
  the end of the store, and no node is ever removed from it. \<^verbatim>\<open>Maybe\<close> is
  \<open>option\<close>; \<^verbatim>\<open>Maybe.equals\<close> on two references compares the references.
\<close>

record ('k, 'v) lru_node =
  n_key :: 'k
  n_val :: 'v
  n_prev :: "nat option"
  n_next :: "nat option"
  n_expiry :: "int option"

record ('k, 'v) lru_state =
  lru_heap :: "('k, 'v) lru_node list"
  lru_capacity :: int
  lru_cache :: "('k \<times> nat) list"
  lru_head :: "nat option"
  lru_tail :: "nat option"
  lru_size :: int
  lru_maxAge :: jsnum
  lru_onEviction :: bool
  lru_calls :: "('k \<times> 'v) list"

definition LRUCache :: "CacheOptions \<Rightarrow> ('k, 'v) lru_state" where
  "LRUCache options =
     \<lparr> lru_heap = [],
       lru_capacity = maxSize options,
       lru_cache = [],
       lru_head = None,
       lru_tail = None,
       lru_size = 0,
       lru_maxAge = maxAge_or_infinity (maxAge options),
       lru_onEviction = onEviction options,
       lru_calls = [] \<rparr>"

definition lru_moveToHead :: "nat \<Rightarrow> ('k, 'v) lru_state \<Rightarrow> ('k, 'v) lru_state" where
  "lru_moveToHead a s =
     (if lru_head s = Some a then s
      else
        (let h = lru_heap s;
             h1 = (case n_prev (h ! a) of
                     Some p \<Rightarrow> h[p := (h ! p)\<lparr>n_next := n_next (h ! a)\<rparr>]
                   | None \<Rightarrow> h);
             h2 = (case n_next (h1 ! a) of
                     Some n \<Rightarrow> h1[n := (h1 ! n)\<lparr>n_prev := n_prev (h1 ! a)\<rparr>]
                   | None \<Rightarrow> h1);
             tail1 = (if lru_tail s = Some a then n_prev (h2 ! a) else lru_tail s);
             h3 = (case lru_head s of
                     Some x \<Rightarrow> h2[x := (h2 ! x)\<lparr>n_prev := Some a\<rparr>]
                   | None \<Rightarrow> h2);
             h4 = h3[a := (h3 ! a)\<lparr>n_next := lru_head s, n_prev := None\<rparr>];
             tail2 = (if tail1 = None then Some a else tail1)
         in s\<lparr>lru_heap := h4, lru_head := Some a, lru_tail := tail2\<rparr>))"

text \<open>
  \<^verbatim>\<open>set\<close>. \<^verbatim>\<open>ToChecked\<close> and \<^verbatim>\<open>FromJust\<close> on \<^verbatim>\<open>Nothing\<close> give no node, and
  the field write that follows cannot succeed: the call ends in an exception, the value
  \<open>Inl NothingUnwrapped\<close>. The test \<^verbatim>\<open>if (evictedNode.ToChecked().prev)\<close> is on a
  \<^verbatim>\<open>Maybe\<close> object, which is always truthy.
\<close>

definition lru_set ::
  "int \<Rightarrow> 'k \<Rightarrow> 'v \<Rightarrow> jsnum option \<Rightarrow> ('k, 'v) lru_state \<Rightarrow> cache_error + ('k, 'v) lru_state"
  where
  "lru_set now key value opt s =
     (let expiry = expiry_of now (entry_maxAge opt (lru_maxAge s))
      in (case map_of (lru_cache s) key of
            Some a \<Rightarrow>
              Inr (lru_moveToHead a
                     (s\<lparr>lru_heap := (lru_heap s)[a := (lru_heap s ! a)\<lparr>n_val := value\<rparr>]\<rparr>))
          | None \<Rightarrow>
              (let a = length (lru_heap s);
                   node = \<lparr>n_key = key, n_val = value, n_prev = None,
                           n_next = lru_head s, n_expiry = expiry\<rparr>;
                   h0 = lru_heap s @ [node];
                   h1 = (case lru_head s of
                           Some x \<Rightarrow> h0[x := (h0 ! x)\<lparr>n_prev := Some a\<rparr>]
                         | None \<Rightarrow> h0);
                   tail1 = (if lru_tail s = None then Some a else lru_tail s);
                   s1 = s\<lparr>lru_heap := h1, lru_head := Some a, lru_tail := tail1,
                          lru_cache := AList.update key a (lru_cache s),
                          lru_size := lru_size s + 1\<rparr>
               in if lru_size s1 > lru_capacity s1
                  then
                    (case lru_tail s1 of
                       None \<Rightarrow> Inl NothingUnwrapped
                     | Some t \<Rightarrow>
                         (case n_prev (h1 ! t) of
                            None \<Rightarrow> Inl NothingUnwrapped
                          | Some p \<Rightarrow>
                              (let h2 = h1[p := (h1 ! p)\<lparr>n_next := None\<rparr>]
                               in Inr (s1\<lparr>lru_heap := h2,
                                          lru_cache := AList.delete (n_key (h1 ! t)) (lru_cache s1),
                                          lru_tail := n_prev (h2 ! t),
                                          lru_size := lru_size s1 - 1,
                                          lru_calls :=
                                            (if lru_onEviction s1
                                             then lru_calls s1 @ [(n_key (h2 ! t), n_val (h2 ! t))]
                                             else lru_calls s1)\<rparr>))))
                  else Inr s1)))"

definition lru_delete :: "'k \<Rightarrow> ('k, 'v) lru_state \<Rightarrow> bool \<times> ('k, 'v) lru_state" where
  "lru_delete key s =
     (case map_of (lru_cache s) key of
        None \<Rightarrow> (False, s)
      | Some a \<Rightarrow>
          (let h = lru_heap s;
               h1 = (case n_prev (h ! a) of
                       Some p \<Rightarrow> h[p := (h ! p)\<lparr>n_next := n_next (h ! a)\<rparr>]
                     | None \<Rightarrow> h);
               head1 = (case n_prev (h ! a) of Some p \<Rightarrow> lru_head s | None \<Rightarrow> n_next (h ! a));
               h2 = (case n_next (h1 ! a) of
                       Some n \<Rightarrow> h1[n := (h1 ! n)\<lparr>n_prev := n_prev (h1 ! a)\<rparr>]
                     | None \<Rightarrow> h1);
               tail1 = (case n_next (h1 ! a) of Some n \<Rightarrow> lru_tail s | None \<Rightarrow> n_prev (h1 ! a))
           in (True, s\<lparr>lru_heap := h2, lru_head := head1, lru_tail := tail1,
                       lru_cache := AList.delete key (lru_cache s),
                       lru_size := lru_size s - 1\<rparr>)))"

definition lru_deleteIfExpired ::
  "int \<Rightarrow> 'k \<Rightarrow> nat \<Rightarrow> ('k, 'v) lru_state \<Rightarrow> bool \<times> ('k, 'v) lru_state" where
  "lru_deleteIfExpired now key item s =
     (if is_expired (n_expiry (lru_heap s ! item)) now
      then (True, snd (lru_delete key s)) else (False, s))"

definition lru_getOrDeleteIfExpired ::
  "int \<Rightarrow> 'k \<Rightarrow> nat \<Rightarrow> ('k, 'v) lru_state \<Rightarrow> 'v option \<times> ('k, 'v) lru_state" where
  "lru_getOrDeleteIfExpired now key item s =
     (case lru_deleteIfExpired now key item s of
        (True, s') \<Rightarrow> (None, s')
      | (False, s') \<Rightarrow>
          (let s'' = lru_moveToHead item s' in (Some (n_val (lru_heap s'' ! item)), s'')))"

definition lru_peek :: "int \<Rightarrow> 'k \<Rightarrow> ('k, 'v) lru_state \<Rightarrow> 'v option \<times> ('k, 'v) lru_state" where
  "lru_peek now key s =
     (case map_of (lru_cache s) key of
        Some item \<Rightarrow> lru_getOrDeleteIfExpired now key item s
      | None \<Rightarrow> (None, s))"

definition lru_get :: "int \<Rightarrow> 'k \<Rightarrow> ('k, 'v) lru_state \<Rightarrow> 'v option \<times> ('k, 'v) lru_state" where
  "lru_get now key s =
     (case map_of (lru_cache s) key of
        Some node \<Rightarrow> lru_getOrDeleteIfExpired now key node s
      | None \<Rightarrow> (None, s))"

definition lru_has :: "'k \<Rightarrow> ('k, 'v) lru_state \<Rightarrow> bool" where
  "lru_has key s \<longleftrightarrow> map_of (lru_cache s) key \<noteq> None"

definition lru_clear :: "('k, 'v) lru_state \<Rightarrow> ('k, 'v) lru_state" where
  "lru_clear s = s\<lparr>lru_cache := [], lru_head := None, lru_tail := None, lru_size := 0\<rparr>"

definition lru_maxSizeValue :: "('k, 'v) lru_state \<Rightarrow> int" where
  "lru_maxSizeValue s = lru_capacity s"

fun lru_entries_loop ::
  "int \<Rightarrow> ('k \<times> nat) list \<Rightarrow> ('k, 'v) lru_state \<Rightarrow> ('k \<times> nat) list \<times> ('k, 'v) lru_state" where
  "lru_entries_loop now [] s = ([], s)"
| "lru_entries_loop now ((key, item) # rest) s =
     (case lru_deleteIfExpired now key item s of
        (True, s') \<Rightarrow> lru_entries_loop now rest s'
      | (False, s') \<Rightarrow>
          (case lru_entries_loop now rest s' of (items, s'') \<Rightarrow> ((key, item) # items, s'')))"

definition lru_entriesAscendingInternal ::
  "int \<Rightarrow> ('k, 'v) lru_state \<Rightarrow> ('k \<times> nat) list \<times> ('k, 'v) lru_state" where
  "lru_entriesAscendingInternal now s = lru_entries_loop now (lru_cache s) s"

definition lru_emitEvictions :: "('k \<times> nat) list \<Rightarrow> ('k, 'v) lru_state \<Rightarrow> ('k, 'v) lru_state" where
  "lru_emitEvictions m s =
     (if \<not> lru_onEviction s then s
      else s\<lparr>lru_calls := lru_calls s @ map (\<lambda>p. (fst p, n_val (lru_heap s ! snd p))) m\<rparr>)"

definition lru_resize ::
  "int \<Rightarrow> int \<Rightarrow> ('k, 'v) lru_state \<Rightarrow> cache_error + ('k, 'v) lru_state" where
  "lru_resize now newSize s =
     (if newSize \<le> 0 then Inl TypeError
      else (case lru_entriesAscendingInternal now s of
              (items, s1) \<Rightarrow>
                (let removeCount = int (length items) - newSize
                 in if removeCount > 0
                    then Inr ((lru_emitEvictions (new_Map (take (nat removeCount) items)) s1)
                               \<lparr>lru_cache := new_Map (drop (nat removeCount) items),
                                lru_size := newSize\<rparr>)
                    else Inr (s1\<lparr>lru_cache := new_Map items,
                                 lru_size := int (length items)\<rparr>))))"

text \<open>
  The recency list as a traversal reads it: the references met from \<^verbatim>\<open>head\<close> along
  \<^verbatim>\<open>next\<close>. A list without a cycle visits each node of the store at most once, so the
  size of the store bounds the walk.
\<close>

fun walk :: "('k, 'v) lru_node list \<Rightarrow> nat \<Rightarrow> nat option \<Rightarrow> nat list" where
  "walk h 0 p = []"
| "walk h (Suc n) None = []"
| "walk h (Suc n) (Some a) = a # walk h n (n_next (h ! a))"

definition lru_list :: "('k, 'v) lru_state \<Rightarrow> nat list" where
  "lru_list s = walk (lru_heap s) (length (lru_heap s)) (lru_head s)"

definition lru_list_keys :: "('k, 'v) lru_state \<Rightarrow> 'k list" where
  "lru_list_keys s = map (\<lambda>a. n_key (lru_heap s ! a)) (lru_list s)"


section \<open>Sequences of calls\<close>

text \<open>
  A public call with the clock reading it sees. A sequence of calls stops at the first
  exception, as the caller's script would.
\<close>

datatype ('k, 'v) cache_call =
    Call_set int 'k 'v "jsnum option"
  | Call_get int 'k
  | Call_peek int 'k
  | Call_delete 'k
  | Call_clear
  | Call_resize int int

fun lru_call :: "('k, 'v) cache_call \<Rightarrow> ('k, 'v) lru_state \<Rightarrow> cache_error + ('k, 'v) lru_state"
  where
  "lru_call (Call_set now k v opt) s = lru_set now k v opt s"
| "lru_call (Call_get now k) s = Inr (snd (lru_get now k s))"
| "lru_call (Call_peek now k) s = Inr (snd (lru_peek now k s))"
| "lru_call (Call_delete k) s = Inr (snd (lru_delete k s))"
| "lru_call Call_clear s = Inr (lru_clear s)"
| "lru_call (Call_resize now n) s = lru_resize now n s"

fun lru_run ::
  "('k, 'v) cache_call list \<Rightarrow> ('k, 'v) lru_state \<Rightarrow> cache_error + ('k, 'v) lru_state" where
  "lru_run [] s = Inr s"
| "lru_run (c # cs) s = (case lru_call c s of Inl e \<Rightarrow> Inl e | Inr s' \<Rightarrow> lru_run cs s')"

fun lfu_call :: "('k, 'v) cache_call \<Rightarrow> ('k, 'v) lfu_state \<Rightarrow> cache_error + ('k, 'v) lfu_state"
  where
  "lfu_call (Call_set now k v opt) s = Inr (lfu_set now k v opt s)"
| "lfu_call (Call_get now k) s = Inr (snd (lfu_get now k s))"
| "lfu_call (Call_peek now k) s = Inr (snd (lfu_peek now k s))"
| "lfu_call (Call_delete k) s = Inr (snd (lfu_delete k s))"
| "lfu_call Call_clear s = Inr (lfu_clear s)"
| "lfu_call (Call_resize now n) s = lfu_resize now n s"

fun lfu_run ::
  "('k, 'v) cache_call list \<Rightarrow> ('k, 'v) lfu_state \<Rightarrow> cache_error + ('k, 'v) lfu_state" where
  "lfu_run [] s = Inr s"
| "lfu_run (c # cs) s = (case lfu_call c s of Inl e \<Rightarrow> Inl e | Inr s' \<Rightarrow> lfu_run cs s')"

fun is_resize :: "('k, 'v) cache_call \<Rightarrow> bool" where
  "is_resize (Call_resize now n) = True"
| "is_resize c = False"

text \<open>
  A sequence of \<^verbatim>\<open>set\<close> calls, each given as clock reading, key, value and per-call
  \<^verbatim>\<open>maxAge\<close>; the result lists the state after each call.
\<close>

fun lfu_sets ::
  "(int \<times> 'k \<times> 'v \<times> jsnum option) list \<Rightarrow> ('k, 'v) lfu_state \<Rightarrow> ('k, 'v) lfu_state list" where
  "lfu_sets [] s = []"
| "lfu_sets ((now, k, v, opt) # cs) s =
     (let s' = lfu_set now k v opt s in s' # lfu_sets cs s')"

fun lru_sets ::
  "(int \<times> 'k \<times> 'v \<times> jsnum option) list \<Rightarrow> ('k, 'v) lru_state \<Rightarrow>
     cache_error + ('k, 'v) lru_state list" where
  "lru_sets [] s = Inr []"
| "lru_sets ((now, k, v, opt) # cs) s =
     (case lru_set now k v opt s of
        Inl e \<Rightarrow> Inl e
      | Inr s' \<Rightarrow> (case lru_sets cs s' of Inl e \<Rightarrow> Inl e | Inr ss \<Rightarrow> Inr (s' # ss)))"


section \<open>Representation invariants\<close>

text \<open>
  \<open>seg h p as n\<close>: in the store \<open>h\<close> the nodes \<open>as\<close> are doubly linked in this order,
  the first one pointing back to \<open>p\<close> and the last one pointing on to \<open>n\<close>.
\<close>

definition first_or :: "nat list \<Rightarrow> nat option \<Rightarrow> nat option" where
  "first_or as n = (case as of [] \<Rightarrow> n | b # _ \<Rightarrow> Some b)"

definition last_or :: "nat list \<Rightarrow> nat option \<Rightarrow> nat option" where
  "last_or as p = (if as = [] then p else Some (last as))"

fun seg :: "('k, 'v) lru_node list \<Rightarrow> nat option \<Rightarrow> nat list \<Rightarrow> nat option \<Rightarrow> bool" where
  "seg h p [] n = True"
| "seg h p (a # as) n \<longleftrightarrow>
     a < length h \<and> n_prev (h ! a) = p \<and> n_next (h ! a) = first_or as n \<and> seg h (Some a) as n"

text \<open>
  \<open>lru_wf s as\<close>: the recency list of \<open>s\<close> is \<open>as\<close>, most recently touched node first,
  and the index holds exactly these nodes, each under its own key, and \<^verbatim>\<open>size\<close> counts
  them.
\<close>

definition lru_wf :: "('k, 'v) lru_state \<Rightarrow> nat list \<Rightarrow> bool" where
  "lru_wf s as \<longleftrightarrow>
     seg (lru_heap s) None as None \<and> distinct as \<and>
     lru_head s = first_or as None \<and> lru_tail s = last_or as None \<and>
     lru_size s = int (length as) \<and>
     distinct (map fst (lru_cache s)) \<and>
     length (lru_cache s) = length as \<and>
     list_all (\<lambda>a. map_of (lru_cache s) (n_key (lru_heap s ! a)) = Some a) as \<and>
     list_all (\<lambda>(k, a). a \<in> set as \<and> n_key (lru_heap s ! a) = k) (lru_cache s)"

text \<open>The store after the two neighbour writes that \<^verbatim>\<open>moveToHead\<close> and \<^verbatim>\<open>delete\<close> share.\<close>

definition unlinked :: "('k, 'v) lru_node list \<Rightarrow> nat \<Rightarrow> ('k, 'v) lru_node list" where
  "unlinked h a =
     (let h1 = (case n_prev (h ! a) of
                  Some p \<Rightarrow> h[p := (h ! p)\<lparr>n_next := n_next (h ! a)\<rparr>]
                | None \<Rightarrow> h)
      in (case n_next (h1 ! a) of
            Some n \<Rightarrow> h1[n := (h1 ! n)\<lparr>n_prev := n_prev (h1 ! a)\<rparr>]
          | None \<Rightarrow> h1))"

text \<open>
  The two halves of the new-key branch of \<^verbatim>\<open>LRUCache.set\<close>: the state once the new
  node is linked at the head and indexed, and the eviction of the tail that follows when
  \<^verbatim>\<open>size\<close> exceeds \<^verbatim>\<open>capacity\<close>.
\<close>

definition lru_inserted ::
  "int \<Rightarrow> 'k \<Rightarrow> 'v \<Rightarrow> jsnum option \<Rightarrow> ('k, 'v) lru_state \<Rightarrow> ('k, 'v) lru_state" where
  "lru_inserted now key value opt s =
     (let expiry = expiry_of now (entry_maxAge opt (lru_maxAge s));
          a = length (lru_heap s);
          node = \<lparr>n_key = key, n_val = value, n_prev = None,
                  n_next = lru_head s, n_expiry = expiry\<rparr>;
          h0 = lru_heap s @ [node];
          h1 = (case lru_head s of
                  Some x \<Rightarrow> h0[x := (h0 ! x)\<lparr>n_prev := Some a\<rparr>]
                | None \<Rightarrow> h0);
          tail1 = (if lru_tail s = None then Some a else lru_tail s)
      in s\<lparr>lru_heap := h1, lru_head := Some a, lru_tail := tail1,
           lru_cache := AList.update key a (lru_cache s),
           lru_size := lru_size s + 1\<rparr>)"

definition lru_evict_tail :: "('k, 'v) lru_state \<Rightarrow> cache_error + ('k, 'v) lru_state" where
  "lru_evict_tail s1 =
     (case lru_tail s1 of
        None \<Rightarrow> Inl NothingUnwrapped
      | Some t \<Rightarrow>
          (case n_prev (lru_heap s1 ! t) of
             None \<Rightarrow> Inl NothingUnwrapped
           | Some p \<Rightarrow>
               (let h2 = (lru_heap s1)[p := (lru_heap s1 ! p)\<lparr>n_next := None\<rparr>]
                in Inr (s1\<lparr>lru_heap := h2,
                           lru_cache := AList.delete (n_key (lru_heap s1 ! t)) (lru_cache s1),
                           lru_tail := n_prev (h2 ! t),
                           lru_size := lru_size s1 - 1,
                           lru_calls :=
                             (if lru_onEviction s1
                              then lru_calls s1 @ [(n_key (h2 ! t), n_val (h2 ! t))]
                              else lru_calls s1)\<rparr>))))"

text \<open>\<open>same_data g h\<close>: the stores \<open>g\<close> and \<open>h\<close> differ in the links of their nodes only.\<close>

definition same_data :: "('k, 'v) lru_node list \<Rightarrow> ('k, 'v) lru_node list \<Rightarrow> bool" where
  "same_data g h \<longleftrightarrow>
     length g = length h \<and>
     (\<forall>b. n_key (g ! b) = n_key (h ! b) \<and> n_val (g ! b) = n_val (h ! b) \<and>
          n_expiry (g ! b) = n_expiry (h ! b))"

text \<open>
  \<open>lfu_core s\<close>: every indexed node is stored under its own key and sits in the bucket
  of its frequency; a bucket is not empty and holds only indexed keys of its frequency;
  \<^verbatim>\<open>size\<close> counts the index. \<open>lfu_wf s\<close> adds that the bucket at \<^verbatim>\<open>minFreq\<close>
  exists unless the cache is empty.
\<close>

definition lfu_core :: "('k, 'v) lfu_state \<Rightarrow> bool" where
  "lfu_core s \<longleftrightarrow>
     distinct (map fst (lfu_cache s)) \<and>
     lfu_size s = int (length (lfu_cache s)) \<and>
     (\<forall>k n. map_of (lfu_cache s) k = Some n \<longrightarrow>
        f_key n = k \<and> (\<exists>ks. map_of (lfu_freqMap s) (f_freq n) = Some ks \<and> k \<in> set ks)) \<and>
     (\<forall>f ks. map_of (lfu_freqMap s) f = Some ks \<longrightarrow>
        ks \<noteq> [] \<and> (\<forall>k\<in>set ks. \<exists>n. map_of (lfu_cache s) k = Some n \<and> f_freq n = f))"

definition lfu_wf :: "('k, 'v) lfu_state \<Rightarrow> bool" where
  "lfu_wf s \<longleftrightarrow>
     lfu_core s \<and> (lfu_cache s \<noteq> [] \<longrightarrow> map_of (lfu_freqMap s) (lfu_minFreq s) \<noteq> None)"

text \<open>\<open>lfu_lowest s\<close>: no bucket has a frequency below \<^verbatim>\<open>minFreq\<close>, nor below 1.\<close>

definition lfu_lowest :: "('k, 'v) lfu_state \<Rightarrow> bool" where
  "lfu_lowest s \<longleftrightarrow>
     (\<forall>f ks. map_of (lfu_freqMap s) f = Some ks \<longrightarrow> lfu_minFreq s \<le> f \<and> 1 \<le> f)"

text \<open>
  The buckets, as a map, once key \<open>k\<close> has left the bucket of frequency \<open>f\<close>: a bucket
  that becomes empty is dropped.
\<close>

definition freq_without :: "(nat \<rightharpoonup> 'k list) \<Rightarrow> nat \<Rightarrow> 'k \<Rightarrow> (nat \<rightharpoonup> 'k list)" where
  "freq_without F f k =
     (case F f of
        None \<Rightarrow> F
      | Some ks \<Rightarrow> if removeAll k ks = [] then F(f := None) else F(f \<mapsto> removeAll k ks))"

text \<open>The smallest frequency that has a bucket with a member, if there is one.\<close>

definition true_minFreq :: "('k, 'v) lfu_state \<Rightarrow> nat option" where
  "true_minFreq s =
     (let fs = map fst (filter (\<lambda>p. snd p \<noteq> []) (lfu_freqMap s))
      in if fs = [] then None else Some (Min (set fs)))"

text \<open>
  The key \<^verbatim>\<open>evict\<close> takes: \<^verbatim>\<open>keys.values().next().value\<close>, the first key in insertion
  order of the bucket at \<^verbatim>\<open>minFreq\<close>.
\<close>

definition lfu_victim :: "('k, 'v) lfu_state \<Rightarrow> 'k option" where
  "lfu_victim s =
     (case map_of (lfu_freqMap s) (lfu_minFreq s) of
        None \<Rightarrow> None
      | Some keys \<Rightarrow> (case keys of [] \<Rightarrow> None | key # _ \<Rightarrow> Some key))"


section \<open>Scripts used as concrete instances\<close>

text \<open>A run of \<^verbatim>\<open>get\<close> calls, listing what each returns.\<close>

fun lru_gets :: "(int \<times> 'k) list \<Rightarrow> ('k, 'v) lru_state \<Rightarrow> 'v option list" where
  "lru_gets [] s = []"
| "lru_gets ((now, k) # r) s = (case lru_get now k s of (v, s') \<Rightarrow> v # lru_gets r s')"

fun lfu_gets :: "(int \<times> 'k) list \<Rightarrow> ('k, 'v) lfu_state \<Rightarrow> 'v option list" where
  "lfu_gets [] s = []"
| "lfu_gets ((now, k) # r) s = (case lfu_get now k s of (v, s') \<Rightarrow> v # lfu_gets r s')"

text \<open>Options without a default \<^verbatim>\<open>maxAge\<close> and with the eviction callback installed.\<close>

definition opts :: "int \<Rightarrow> CacheOptions" where
  "opts c = \<lparr>maxSize = c, maxAge = None, onEviction = True\<rparr>"

text \<open>Three and four insertions into a cache of capacity three, all at clock reading 0.\<close>

definition set_abc :: "(int \<times> string \<times> int \<times> jsnum option) list" where
  "set_abc = [(0, ''a'', 1, None), (0, ''b'', 2, None), (0, ''c'', 3, None)]"

definition set_abcd :: "(int \<times> string \<times> int \<times> jsnum option) list" where
  "set_abcd = set_abc @ [(0, ''d'', 4, None)]"

text \<open>An entry written at clock reading 0 with a \<^verbatim>\<open>maxAge\<close> of 1000, capacity two.\<close>

definition ttl1_lru :: "(string, int) lru_state" where
  "ttl1_lru = projr (lru_run [Call_set 0 ''a'' 1 (Some (Fin 1000))] (LRUCache (opts 2)))"

definition ttl1_lfu :: "(string, int) lfu_state" where
  "ttl1_lfu = projr (lfu_run [Call_set 0 ''a'' 1 (Some (Fin 1000))] (LFUCache (opts 2)))"

text \<open>The spec's eviction scripts, on caches of capacity three.\<close>

definition lru_abc :: "(string, int) lru_state" where
  "lru_abc = projr (lru_run [Call_set 0 ''a'' 1 None, Call_set 0 ''b'' 2 None,
                             Call_set 0 ''c'' 3 None] (LRUCache (opts 3)))"

definition lfu_abc_used :: "(string, int) lfu_state" where
  "lfu_abc_used = projr (lfu_run [Call_set 0 ''a'' 1 None, Call_set 0 ''b'' 2 None,
                                  Call_set 0 ''c'' 3 None, Call_get 0 ''a'', Call_get 0 ''a'',
                                  Call_get 0 ''b''] (LFUCache (opts 3)))"

text \<open>
  A full cache of capacity two that holds an entry with a \<^verbatim>\<open>maxAge\<close> of 1000 and an entry
  without expiry, both written at clock reading 0; the first one is read at 500, so that the
  second one is the next to be evicted by either policy.
\<close>

definition ttl_full_lru :: "(string, int) lru_state" where
  "ttl_full_lru = projr (lru_run [Call_set 0 ''a'' 1 (Some (Fin 1000)), Call_set 0 ''b'' 2 None,
                                  Call_get 500 ''a''] (LRUCache (opts 2)))"

definition ttl_full_lfu :: "(string, int) lfu_state" where
  "ttl_full_lfu = projr (lfu_run [Call_set 0 ''a'' 1 (Some (Fin 1000)), Call_set 0 ''b'' 2 None,
                                  Call_get 500 ''a''] (LFUCache (opts 2)))"
section \<open>Properties\<close>

subsection \<open>The recency list\<close>


lemma first_or_simps [simp]: "first_or [] n = n" "first_or (a # as) n = Some a"
  by (simp_all add: first_or_def)

lemma last_or_simps [simp]: "last_or [] p = p" "last_or (as @ [a]) p = Some a"
  by (simp_all add: last_or_def)

lemma last_or_Cons: "last_or (a # as) p = last_or as (Some a)"
  by (simp add: last_or_def)

lemma first_or_append: "first_or (xs @ ys) n = first_or xs (first_or ys n)"
  by (cases xs) simp_all

lemma last_or_append: "last_or (xs @ ys) p = last_or ys (last_or xs p)"
  by (simp add: last_or_def)

lemma seg_append:
  "seg h p (xs @ ys) n \<longleftrightarrow> seg h p xs (first_or ys n) \<and> seg h (last_or xs p) ys n"
proof (induction xs arbitrary: p)
  case Nil
  show ?case by simp
next
  case (Cons x xs)
  show ?case by (simp add: Cons.IH first_or_append last_or_Cons)
qed

lemma seg_bound: "seg h p as n \<Longrightarrow> a \<in> set as \<Longrightarrow> a < length h"
  by (induction as arbitrary: p) auto

lemma seg_frame: "b \<notin> set as \<Longrightarrow> seg (h[b := v]) p as n = seg h p as n"
  by (induction as arbitrary: p) auto

lemma seg_alloc: "seg h p as n \<Longrightarrow> seg (h @ [v]) p as n"
  by (induction as arbitrary: p) (auto simp: nth_append)

lemma seg_set_prev_first:
  "seg h p (a # as) n \<Longrightarrow> a \<notin> set as \<Longrightarrow> seg (h[a := (h ! a)\<lparr>n_prev := q\<rparr>]) q (a # as) n"
  by (simp add: seg_frame)

lemma seg_set_next_last:
  "seg h p (as @ [a]) n \<Longrightarrow> a \<notin> set as \<Longrightarrow> seg (h[a := (h ! a)\<lparr>n_next := m\<rparr>]) p (as @ [a]) m"
proof (induction as arbitrary: p)
  case Nil
  then show ?case by simp
next
  case (Cons x xs)
  then show ?case by (auto simp: first_or_append)
qed

lemma seg_set_val: "seg (h[a := (h ! a)\<lparr>n_val := v\<rparr>]) p as n = seg h p as n"
proof (induction as arbitrary: p)
  case Nil
  show ?case by simp
next
  case (Cons x xs)
  show ?case by (cases "x = a") (auto simp: Cons.IH)
qed


lemma length_unlinked [simp]: "length (unlinked h a) = length h"
  by (simp add: unlinked_def Let_def split: option.splits)

lemma unlinked_seg:
  assumes "seg h None (xs @ a # ys) None" "distinct (xs @ a # ys)"
  shows "seg (unlinked h a) None (xs @ ys) None \<and> unlinked h a ! a = h ! a"
proof -
  from assms(1) have sx: "seg h None xs (Some a)" and sa: "seg h (last_or xs None) (a # ys) None"
    by (simp_all add: seg_append)
  from sa have al: "a < length h" and pa: "n_prev (h ! a) = last_or xs None"
    and na: "n_next (h ! a) = first_or ys None" and sy: "seg h (Some a) ys None"
    by simp_all
  define h1 where "h1 = (case n_prev (h ! a) of
                  Some p \<Rightarrow> h[p := (h ! p)\<lparr>n_next := n_next (h ! a)\<rparr>]
                | None \<Rightarrow> h)"
  have u: "unlinked h a = (case n_next (h1 ! a) of
            Some n \<Rightarrow> h1[n := (h1 ! n)\<lparr>n_prev := n_prev (h1 ! a)\<rparr>]
          | None \<Rightarrow> h1)"
    unfolding unlinked_def Let_def h1_def by (rule refl)
  have h1a: "h1 ! a = h ! a" and h1x: "seg h1 None xs (first_or ys None)"
    and h1y: "seg h1 (Some a) ys None"
  proof -
    show "h1 ! a = h ! a"
    proof (cases xs rule: rev_cases)
      case Nil then show ?thesis using pa by (simp add: h1_def)
    next
      case (snoc xs' p)
      then have "p \<noteq> a" using assms(2) by auto
      then show ?thesis using pa snoc by (simp add: h1_def)
    qed
    show "seg h1 None xs (first_or ys None)"
    proof (cases xs rule: rev_cases)
      case Nil then show ?thesis by simp
    next
      case (snoc xs' p)
      then have "p \<notin> set xs'" using assms(2) by auto
      with sx snoc have "seg (h[p := (h ! p)\<lparr>n_next := first_or ys None\<rparr>]) None (xs' @ [p]) (first_or ys None)"
        using seg_set_next_last by blast
      then show ?thesis using pa na snoc by (simp add: h1_def)
    qed
    show "seg h1 (Some a) ys None"
    proof (cases xs rule: rev_cases)
      case Nil then show ?thesis using pa sy by (simp add: h1_def)
    next
      case (snoc xs' p)
      then have "p \<notin> set ys" using assms(2) by auto
      then show ?thesis using pa na snoc sy by (simp add: h1_def seg_frame)
    qed
  qed
  show ?thesis
  proof (cases ys)
    case Nil
    then show ?thesis using u h1a h1x na by simp
  next
    case (Cons y ys')
    then have ya: "y \<noteq> a" and yx: "y \<notin> set xs" and yy: "y \<notin> set ys'" using assms(2) by auto
    have u': "unlinked h a = h1[y := (h1 ! y)\<lparr>n_prev := last_or xs None\<rparr>]"
      using u h1a na pa Cons by simp
    have "seg (unlinked h a) None xs (first_or ys None)"
      unfolding u' using h1x yx by (simp add: seg_frame)
    moreover have "seg (unlinked h a) (last_or xs None) ys None"
      unfolding u' Cons using h1y yy Cons seg_set_prev_first by blast
    moreover have "unlinked h a ! a = h ! a"
      unfolding u' using ya h1a by simp
    ultimately show ?thesis by (simp add: seg_append)
  qed
qed

lemma same_data_refl [simp]: "same_data h h"
  by (simp add: same_data_def)

lemma same_data_trans: "same_data f g \<Longrightarrow> same_data g h \<Longrightarrow> same_data f h"
  by (simp add: same_data_def)

lemma same_data_links:
  "same_data (g[i := (g ! i)\<lparr>n_next := u\<rparr>]) g"
  "same_data (g[i := (g ! i)\<lparr>n_prev := u\<rparr>]) g"
  "same_data (g[i := (g ! i)\<lparr>n_next := u, n_prev := w\<rparr>]) g"
proof -
  have *: "i = b \<or> i \<noteq> b" "i < length g \<or> length g \<le> i" for b by auto
  show "same_data (g[i := (g ! i)\<lparr>n_next := u\<rparr>]) g"
    unfolding same_data_def
    by (cases "i < length g") (auto simp: nth_list_update list_update_beyond)
  show "same_data (g[i := (g ! i)\<lparr>n_prev := u\<rparr>]) g"
    unfolding same_data_def
    by (cases "i < length g") (auto simp: nth_list_update list_update_beyond)
  show "same_data (g[i := (g ! i)\<lparr>n_next := u, n_prev := w\<rparr>]) g"
    unfolding same_data_def
    by (cases "i < length g") (auto simp: nth_list_update list_update_beyond)
qed

lemma same_data_unlinked: "same_data (unlinked h a) h"
proof -
  define h1 where "h1 = (case n_prev (h ! a) of
                  Some p \<Rightarrow> h[p := (h ! p)\<lparr>n_next := n_next (h ! a)\<rparr>]
                | None \<Rightarrow> h)"
  have u: "unlinked h a = (case n_next (h1 ! a) of
            Some n \<Rightarrow> h1[n := (h1 ! n)\<lparr>n_prev := n_prev (h1 ! a)\<rparr>]
          | None \<Rightarrow> h1)"
    unfolding unlinked_def Let_def h1_def by (rule refl)
  have 1: "same_data h1 h"
    unfolding h1_def by (cases "n_prev (h ! a)") (simp_all add: same_data_links)
  have 2: "same_data (unlinked h a) h1"
    unfolding u by (cases "n_next (h1 ! a)") (simp_all add: same_data_links)
  from 2 1 show ?thesis by (rule same_data_trans)
qed

lemma lru_moveToHead_eq:
  "lru_moveToHead a s =
     (if lru_head s = Some a then s
      else s\<lparr>lru_heap :=
               (let h2 = unlinked (lru_heap s) a;
                    h3 = (case lru_head s of
                            Some x \<Rightarrow> h2[x := (h2 ! x)\<lparr>n_prev := Some a\<rparr>]
                          | None \<Rightarrow> h2)
                in h3[a := (h3 ! a)\<lparr>n_next := lru_head s, n_prev := None\<rparr>]),
             lru_head := Some a,
             lru_tail :=
               (let tail1 = (if lru_tail s = Some a then n_prev (unlinked (lru_heap s) a ! a)
                             else lru_tail s)
                in if tail1 = None then Some a else tail1)\<rparr>)"
  unfolding lru_moveToHead_def unlinked_def Let_def by (rule refl)

lemma lru_moveToHead_frame:
  "lru_cache (lru_moveToHead a s) = lru_cache s"
  "lru_size (lru_moveToHead a s) = lru_size s"
  "lru_capacity (lru_moveToHead a s) = lru_capacity s"
  "lru_calls (lru_moveToHead a s) = lru_calls s"
  "lru_maxAge (lru_moveToHead a s) = lru_maxAge s"
  "lru_onEviction (lru_moveToHead a s) = lru_onEviction s"
  by (simp_all add: lru_moveToHead_eq)

lemma lru_moveToHead_data: "same_data (lru_heap (lru_moveToHead a s)) (lru_heap s)"
proof (cases "lru_head s = Some a")
  case True
  then show ?thesis by (simp add: lru_moveToHead_eq)
next
  case False
  define h2 where "h2 = unlinked (lru_heap s) a"
  define h3 where "h3 = (case lru_head s of
                            Some x \<Rightarrow> h2[x := (h2 ! x)\<lparr>n_prev := Some a\<rparr>]
                          | None \<Rightarrow> h2)"
  have e: "lru_heap (lru_moveToHead a s) = h3[a := (h3 ! a)\<lparr>n_next := lru_head s, n_prev := None\<rparr>]"
    using False by (simp add: lru_moveToHead_eq h2_def h3_def Let_def split: option.split)
  have 2: "same_data h2 (lru_heap s)" unfolding h2_def by (rule same_data_unlinked)
  have 3: "same_data h3 h2" unfolding h3_def by (cases "lru_head s") (simp_all add: same_data_links)
  have 4: "same_data (h3[a := (h3 ! a)\<lparr>n_next := lru_head s, n_prev := None\<rparr>]) h3"
    by (rule same_data_links)
  show ?thesis unfolding e using 4 3 2 same_data_trans by blast
qed

lemma lru_moveToHead_list:
  assumes seg: "seg (lru_heap s) None as None" and d: "distinct as"
    and hd: "lru_head s = first_or as None" and tl: "lru_tail s = last_or as None"
    and a: "a \<in> set as"
  shows "seg (lru_heap (lru_moveToHead a s)) None (a # remove1 a as) None \<and>
         lru_head (lru_moveToHead a s) = Some a \<and>
         lru_tail (lru_moveToHead a s) = last_or (a # remove1 a as) None"
proof (cases "lru_head s = Some a")
  case True
  with hd obtain as' where as: "as = a # as'" by (cases as) auto
  then show ?thesis using True seg tl by (simp add: lru_moveToHead_eq)
next
  case False
  from a obtain xs ys where as: "as = xs @ a # ys" by (auto dest: split_list)
  with False hd obtain x xs' where xs: "xs = x # xs'" by (cases xs) auto
  have ax: "a \<notin> set xs" and ay: "a \<notin> set ys" using d as by auto
  have rm: "remove1 a as = xs @ ys" using ax as by (simp add: remove1_append)
  have hx: "lru_head s = Some x" using hd as xs by simp
  define h where "h = lru_heap s"
  define h2 where "h2 = unlinked h a"
  define h3 where "h3 = h2[x := (h2 ! x)\<lparr>n_prev := Some a\<rparr>]"
  define h4 where "h4 = h3[a := (h3 ! a)\<lparr>n_next := Some x, n_prev := None\<rparr>]"
  have u: "seg h2 None (xs @ ys) None" and ua: "h2 ! a = h ! a"
    using unlinked_seg[of h xs a ys] seg d as by (simp_all add: h_def h2_def)
  have al: "a < length h" using seg a seg_bound by (auto simp: h_def)
  have pa: "n_prev (h ! a) = last_or xs None"
    using seg as by (simp add: seg_append h_def)
  have xd: "x \<notin> set (xs' @ ys)" using d as xs by auto
  have s3: "seg h3 (Some a) (x # xs' @ ys) None"
    unfolding h3_def using u xs xd seg_set_prev_first[of h2 None x "xs' @ ys" None "Some a"] by simp
  have axy: "a \<notin> set (x # xs' @ ys)" using ax ay xs by simp
  have s4: "seg h4 (Some a) (x # xs' @ ys) None"
    unfolding h4_def using s3 axy seg_frame by blast
  have l4: "length h4 = length h" by (simp add: h4_def h3_def h2_def)
  have a4: "n_prev (h4 ! a) = None \<and> n_next (h4 ! a) = Some x"
    using al by (simp add: h4_def h3_def h2_def)
  have heap: "lru_heap (lru_moveToHead a s) = h4"
    using False hx by (simp add: lru_moveToHead_eq h4_def h3_def h2_def h_def Let_def)
  have tail: "lru_tail (lru_moveToHead a s) = last_or (a # xs @ ys) None"
  proof (cases ys rule: rev_cases)
    case Nil
    then have "lru_tail s = Some a" using tl as by (simp add: last_or_def)
    then show ?thesis using False ua pa Nil xs
      by (simp add: lru_moveToHead_eq h2_def h_def last_or_def Let_def)
  next
    case (snoc ys' y)
    then have t: "lru_tail s = Some y" using tl as by (simp add: last_or_def)
    have "y \<noteq> a" using ay snoc by auto
    then show ?thesis using False t snoc
      by (simp add: lru_moveToHead_eq last_or_def Let_def)
  qed
  show ?thesis
    unfolding heap rm using s4 a4 l4 al tail xs False rm
    by (simp add: lru_moveToHead_eq)
qed


lemma lru_set_eq:
  "lru_set now key value opt s =
     (case map_of (lru_cache s) key of
        Some a \<Rightarrow>
          Inr (lru_moveToHead a
                 (s\<lparr>lru_heap := (lru_heap s)[a := (lru_heap s ! a)\<lparr>n_val := value\<rparr>]\<rparr>))
      | None \<Rightarrow>
          (if lru_size (lru_inserted now key value opt s) > lru_capacity (lru_inserted now key value opt s)
           then lru_evict_tail (lru_inserted now key value opt s)
           else Inr (lru_inserted now key value opt s)))"
  unfolding lru_set_def lru_inserted_def lru_evict_tail_def Let_def
  by (simp split: option.split)


lemma list_all_map_of:
  "distinct (map fst c) \<Longrightarrow>
     list_all (\<lambda>(k, a). P k a) c \<longleftrightarrow> (\<forall>k a. map_of c k = Some a \<longrightarrow> P k a)"
  by (auto simp: list_all_iff)

lemma lru_wf_alt:
  "lru_wf s as \<longleftrightarrow>
     seg (lru_heap s) None as None \<and> distinct as \<and>
     lru_head s = first_or as None \<and> lru_tail s = last_or as None \<and>
     lru_size s = int (length as) \<and>
     distinct (map fst (lru_cache s)) \<and>
     length (lru_cache s) = length as \<and>
     (\<forall>a\<in>set as. map_of (lru_cache s) (n_key (lru_heap s ! a)) = Some a) \<and>
     (\<forall>k a. map_of (lru_cache s) k = Some a \<longrightarrow> a \<in> set as \<and> n_key (lru_heap s ! a) = k)"
  unfolding lru_wf_def using list_all_map_of[of "lru_cache s" "\<lambda>k a. a \<in> set as \<and> n_key (lru_heap s ! a) = k"]
  by (auto simp: list_all_iff)

lemma length_update_new:
  "map_of al k = None \<Longrightarrow> length (AList.update k v al) = Suc (length al)"
  by (induction al) (auto split: if_splits)

lemma length_delete_present:
  "distinct (map fst al) \<Longrightarrow> map_of al k = Some v \<Longrightarrow> Suc (length (AList.delete k al)) = length al"
proof (induction al)
  case Nil
  then show ?case by simp
next
  case (Cons p al)
  show ?case
  proof (cases "fst p = k")
    case True
    then have "k \<notin> fst ` set al" using Cons.prems(1) by auto
    then show ?thesis using True by simp
  next
    case False
    then show ?thesis using Cons by auto
  qed
qed

lemma lru_wf_moveToHead:
  assumes wf: "lru_wf s as" and a: "a \<in> set as"
  shows "lru_wf (lru_moveToHead a s) (a # remove1 a as)"
proof -
  from wf have seg: "seg (lru_heap s) None as None" and d: "distinct as"
    and hd: "lru_head s = first_or as None" and tl: "lru_tail s = last_or as None"
    by (simp_all add: lru_wf_alt)
  note L = lru_moveToHead_list[OF seg d hd tl a]
  have D: "same_data (lru_heap (lru_moveToHead a s)) (lru_heap s)" by (rule lru_moveToHead_data)
  then have key: "n_key (lru_heap (lru_moveToHead a s) ! b) = n_key (lru_heap s ! b)" for b
    by (simp add: same_data_def)
  have st: "set (a # remove1 a as) = set as" using a d by auto
  have da: "distinct (a # remove1 a as)" using d by simp
  have "0 < length as" using a by (rule length_pos_if_in_set)
  then have len: "length (a # remove1 a as) = length as"
    using a by (simp add: length_remove1)
  have hd': "first_or (a # remove1 a as) None = Some a" by simp
  show ?thesis
    unfolding lru_wf_alt[of "lru_moveToHead a s"] st len hd' lru_moveToHead_frame key
    using L da wf unfolding lru_wf_alt[of s] by simp
qed

lemma lru_wf_set_val:
  assumes wf: "lru_wf s as"
  shows "lru_wf (s\<lparr>lru_heap := (lru_heap s)[a := (lru_heap s ! a)\<lparr>n_val := v\<rparr>]\<rparr>) as"
proof -
  have key: "n_key ((lru_heap s)[a := (lru_heap s ! a)\<lparr>n_val := v\<rparr>] ! b) = n_key (lru_heap s ! b)" for b
    by (cases "a = b"; cases "a < length (lru_heap s)") (simp_all add: list_update_beyond)
  show ?thesis using wf unfolding lru_wf_alt by (simp add: seg_set_val key)
qed

lemma lru_wf_inserted:
  assumes wf: "lru_wf s as" and nk: "map_of (lru_cache s) key = None"
  shows "lru_wf (lru_inserted now key value opt s) (length (lru_heap s) # as)"
proof -
  define h where "h = lru_heap s"
  define a where "a = length h"
  define node where "node = \<lparr>n_key = key, n_val = value, n_prev = None,
       n_next = lru_head s, n_expiry = expiry_of now (entry_maxAge opt (lru_maxAge s))\<rparr>"
  define h0 where "h0 = h @ [node]"
  define h1 where "h1 = (case lru_head s of
                  Some x \<Rightarrow> h0[x := (h0 ! x)\<lparr>n_prev := Some a\<rparr>]
                | None \<Rightarrow> h0)"
  define s1 where "s1 = lru_inserted now key value opt s"
  have s1: "s1 = s\<lparr>lru_heap := h1, lru_head := Some a,
                   lru_tail := (if lru_tail s = None then Some a else lru_tail s),
                   lru_cache := AList.update key a (lru_cache s),
                   lru_size := lru_size s + 1\<rparr>"
    unfolding s1_def lru_inserted_def Let_def h1_def h0_def node_def a_def h_def by (rule refl)
  from wf have seg: "seg h None as None" and d: "distinct as"
    and hd: "lru_head s = first_or as None" and tl: "lru_tail s = last_or as None"
    and sz: "lru_size s = int (length as)" and dc: "distinct (map fst (lru_cache s))"
    and len: "length (lru_cache s) = length as"
    and i1: "\<forall>b\<in>set as. map_of (lru_cache s) (n_key (h ! b)) = Some b"
    and i2: "\<forall>k b. map_of (lru_cache s) k = Some b \<longrightarrow> b \<in> set as \<and> n_key (h ! b) = k"
    by (simp_all add: lru_wf_alt h_def)
  have bound: "\<forall>b\<in>set as. b < a" using seg seg_bound by (auto simp: a_def)
  then have an: "a \<notin> set as" by auto
  have seg0: "seg h0 None as None" unfolding h0_def using seg by (rule seg_alloc)
  have l1: "length h1 = Suc a" by (simp add: h1_def h0_def a_def split: option.split)
  have D: "same_data h1 h0"
    unfolding h1_def by (cases "lru_head s") (simp_all add: same_data_links)
  have n1: "h1 ! a = node"
  proof (cases as)
    case Nil
    then show ?thesis using hd by (simp add: h1_def h0_def a_def)
  next
    case (Cons x as')
    then have "x \<noteq> a" using an by auto
    then show ?thesis using hd Cons by (simp add: h1_def h0_def a_def)
  qed
  have seg1: "seg h1 (Some a) as None"
  proof (cases as)
    case Nil
    then show ?thesis by simp
  next
    case (Cons x as')
    then have "x \<notin> set as'" using d by simp
    then show ?thesis
      using seg0 hd Cons seg_set_prev_first[of h0 None x as' None "Some a"] by (simp add: h1_def)
  qed
  have key: "n_key (h1 ! b) = n_key (h ! b)" if "b \<in> set as" for b
  proof -
    have "b < length h" using that bound by (simp add: a_def)
    then have "h0 ! b = h ! b" by (simp add: h0_def nth_append)
    then show ?thesis using D by (simp add: same_data_def)
  qed
  have tail: "(if lru_tail s = None then Some a else lru_tail s) = last_or (a # as) None"
    using tl by (simp add: last_or_def)
  have c1: "seg h1 None (a # as) None"
    using seg1 n1 l1 hd by (simp add: node_def)
  have c2: "distinct (map fst (AList.update key a (lru_cache s)))"
    using dc by (rule distinct_update)
  have c3: "length (AList.update key a (lru_cache s)) = length (a # as)"
    using nk len by (simp add: length_update_new)
  have c4: "\<forall>b\<in>set (a # as). map_of (AList.update key a (lru_cache s)) (n_key (h1 ! b)) = Some b"
  proof
    fix b assume "b \<in> set (a # as)"
    then consider "b = a" | "b \<in> set as" by auto
    then show "map_of (AList.update key a (lru_cache s)) (n_key (h1 ! b)) = Some b"
    proof cases
      case 1
      then show ?thesis using n1 by (simp add: update_conv' node_def)
    next
      case 2
      then have m: "map_of (lru_cache s) (n_key (h ! b)) = Some b" using i1 by blast
      then have "n_key (h ! b) \<noteq> key" using nk by auto
      then show ?thesis using m key[OF 2] by (simp add: update_conv')
    qed
  qed
  have c5: "\<forall>k b. map_of (AList.update key a (lru_cache s)) k = Some b \<longrightarrow>
              b \<in> set (a # as) \<and> n_key (h1 ! b) = k"
  proof (intro allI impI)
    fix k b assume m: "map_of (AList.update key a (lru_cache s)) k = Some b"
    show "b \<in> set (a # as) \<and> n_key (h1 ! b) = k"
    proof (cases "k = key")
      case True
      then have "b = a" using m by (simp add: update_conv')
      then show ?thesis using n1 True by (simp add: node_def)
    next
      case False
      then have "map_of (lru_cache s) k = Some b" using m by (simp add: update_conv')
      then have "b \<in> set as \<and> n_key (h ! b) = k" using i2 by blast
      then show ?thesis using key[of b] by simp
    qed
  qed
  have "lru_wf s1 (a # as)"
    unfolding lru_wf_alt s1
    using c1 c2 c3 c4 c5 d an tail sz by simp
  then show ?thesis by (simp add: s1_def a_def h_def)
qed


lemma lru_wf_evict_tail:
  assumes wf: "lru_wf s1 L" and two: "2 \<le> length L"
  shows "\<exists>s'. lru_evict_tail s1 = Inr s' \<and> lru_wf s' (butlast L) \<and>
           lru_size s' = lru_size s1 - 1 \<and> lru_capacity s' = lru_capacity s1 \<and>
           lru_onEviction s' = lru_onEviction s1 \<and> lru_maxAge s' = lru_maxAge s1 \<and>
           lru_cache s' = AList.delete (n_key (lru_heap s1 ! last L)) (lru_cache s1) \<and>
           same_data (lru_heap s') (lru_heap s1) \<and>
           lru_calls s' =
             (if lru_onEviction s1
              then lru_calls s1 @ [(n_key (lru_heap s1 ! last L), n_val (lru_heap s1 ! last L))]
              else lru_calls s1)"
proof -
  define h where "h = lru_heap s1"
  from two obtain bs p t where L: "L = bs @ [p, t]"
  proof -
    from two have "L \<noteq> []" by auto
    then obtain L' t where 1: "L = L' @ [t]" by (cases L rule: rev_cases) auto
    with two have "L' \<noteq> []" by auto
    then obtain bs p where "L' = bs @ [p]" by (cases L' rule: rev_cases) auto
    with 1 have "L = bs @ [p, t]" by simp
    then show ?thesis using that by blast
  qed
  have bl: "butlast L = bs @ [p]" and la: "last L = t" using L by (simp_all add: butlast_append)
  from wf have seg: "seg h None L None" and d: "distinct L"
    and tl: "lru_tail s1 = last_or L None"
    and sz: "lru_size s1 = int (length L)" and dc: "distinct (map fst (lru_cache s1))"
    and len: "length (lru_cache s1) = length L"
    and i1: "\<forall>b\<in>set L. map_of (lru_cache s1) (n_key (h ! b)) = Some b"
    and i2: "\<forall>k b. map_of (lru_cache s1) k = Some b \<longrightarrow> b \<in> set L \<and> n_key (h ! b) = k"
    and hd: "lru_head s1 = first_or L None"
    by (simp_all add: lru_wf_alt h_def)
  have tp: "t \<noteq> p" and pb: "p \<notin> set bs" and tb: "t \<notin> set bs" using d L by auto
  have t1: "lru_tail s1 = Some t" using tl L by (simp add: last_or_def)
  have L2: "L = (bs @ [p]) @ [t]" using L by simp
  have sbp: "seg h None (bs @ [p]) (Some t)" and st: "seg h (Some p) [t] None"
    using seg unfolding L2 seg_append[of h None "bs @ [p]" "[t]" None] by simp_all
  have pt: "n_prev (h ! t) = Some p" using st by simp
  define h2 where "h2 = h[p := (h ! p)\<lparr>n_next := None\<rparr>]"
  define kt where "kt = n_key (h ! t)"
  define s' where "s' = s1\<lparr>lru_heap := h2,
                           lru_cache := AList.delete kt (lru_cache s1),
                           lru_tail := n_prev (h2 ! t),
                           lru_size := lru_size s1 - 1,
                           lru_calls :=
                             (if lru_onEviction s1
                              then lru_calls s1 @ [(n_key (h2 ! t), n_val (h2 ! t))]
                              else lru_calls s1)\<rparr>"
  have ev: "lru_evict_tail s1 = Inr s'"
    unfolding lru_evict_tail_def s'_def h2_def kt_def using t1 pt by (simp add: h_def Let_def)
  have h2t: "h2 ! t = h ! t" using tp by (simp add: h2_def)
  have D: "same_data h2 h" unfolding h2_def by (rule same_data_links)
  then have key: "n_key (h2 ! b) = n_key (h ! b)" for b by (simp add: same_data_def)
  have seg2: "seg h2 None (bs @ [p]) None"
    unfolding h2_def using sbp pb by (rule seg_set_next_last)
  have mt: "map_of (lru_cache s1) kt = Some t" using i1 L by (simp add: kt_def)
  have c2: "distinct (map fst (AList.delete kt (lru_cache s1)))" using dc by (rule distinct_delete)
  have c3: "length (AList.delete kt (lru_cache s1)) = length (bs @ [p])"
    using length_delete_present[OF dc mt] len L by simp
  have c4: "\<forall>b\<in>set (bs @ [p]). map_of (AList.delete kt (lru_cache s1)) (n_key (h2 ! b)) = Some b"
  proof
    fix b assume b: "b \<in> set (bs @ [p])"
    then have "b \<in> set L" and bt: "b \<noteq> t" using L tp tb by auto
    then have m: "map_of (lru_cache s1) (n_key (h ! b)) = Some b" using i1 by blast
    then have "n_key (h ! b) \<noteq> kt" using mt bt by auto
    then show "map_of (AList.delete kt (lru_cache s1)) (n_key (h2 ! b)) = Some b"
      using m by (simp add: key)
  qed
  have c5: "\<forall>k b. map_of (AList.delete kt (lru_cache s1)) k = Some b \<longrightarrow>
              b \<in> set (bs @ [p]) \<and> n_key (h2 ! b) = k"
  proof (intro allI impI)
    fix k b assume m: "map_of (AList.delete kt (lru_cache s1)) k = Some b"
    then have kk: "k \<noteq> kt" by (auto simp: delete_conv' split: if_splits)
    then have "map_of (lru_cache s1) k = Some b" using m by simp
    then have bL: "b \<in> set L" and kb: "n_key (h ! b) = k" using i2 by blast+
    then have "b \<noteq> t" using kk by (auto simp: kt_def)
    then show "b \<in> set (bs @ [p]) \<and> n_key (h2 ! b) = k" using bL kb L by (auto simp: key)
  qed
  have hd2: "lru_head s1 = first_or (bs @ [p]) None"
    using hd L by (cases bs) simp_all
  have dbp: "distinct (bs @ [p])" using d L by simp
  have wf': "lru_wf s' (bs @ [p])"
    unfolding lru_wf_alt s'_def
    using seg2 dbp hd2 c2 c3 c4 c5 h2t pt sz L by simp
  show ?thesis
    using ev wf' D h2t unfolding bl la by (auto simp: s'_def h_def kt_def)
qed

subsection \<open>\<^verbatim>\<open>LRUCache.set\<close> keeps the representation\<close>


lemma lru_wf_cache_mem:
  "lru_wf s as \<Longrightarrow> map_of (lru_cache s) key = Some a \<Longrightarrow> a \<in> set as"
  by (simp add: lru_wf_alt)

lemma lru_wf_size: "lru_wf s as \<Longrightarrow> lru_size s = int (length as)"
  by (simp add: lru_wf_alt)

lemma lru_inserted_frame:
  "lru_size (lru_inserted now key value opt s) = lru_size s + 1"
  "lru_capacity (lru_inserted now key value opt s) = lru_capacity s"
  "lru_calls (lru_inserted now key value opt s) = lru_calls s"
  "lru_onEviction (lru_inserted now key value opt s) = lru_onEviction s"
  "lru_maxAge (lru_inserted now key value opt s) = lru_maxAge s"
  "lru_cache (lru_inserted now key value opt s) = AList.update key (length (lru_heap s)) (lru_cache s)"
  by (simp_all add: lru_inserted_def Let_def)

lemma lru_set_present_wf:
  assumes wf: "lru_wf s as" and k: "map_of (lru_cache s) key = Some a"
  shows "\<exists>s'. lru_set now key value opt s = Inr s' \<and> lru_wf s' (a # remove1 a as) \<and>
           lru_size s' = lru_size s \<and> lru_capacity s' = lru_capacity s"
proof -
  let ?s0 = "s\<lparr>lru_heap := (lru_heap s)[a := (lru_heap s ! a)\<lparr>n_val := value\<rparr>]\<rparr>"
  have a: "a \<in> set as" using wf k by (rule lru_wf_cache_mem)
  have "lru_wf ?s0 as" using wf by (rule lru_wf_set_val)
  then have "lru_wf (lru_moveToHead a ?s0) (a # remove1 a as)" using a by (rule lru_wf_moveToHead)
  moreover have "lru_set now key value opt s = Inr (lru_moveToHead a ?s0)"
    using k by (simp add: lru_set_eq)
  ultimately show ?thesis by (simp add: lru_moveToHead_frame)
qed

lemma lru_set_new_room_wf:
  assumes wf: "lru_wf s as" and k: "map_of (lru_cache s) key = None"
    and room: "lru_size s + 1 \<le> lru_capacity s"
  shows "\<exists>s'. lru_set now key value opt s = Inr s' \<and> lru_wf s' (length (lru_heap s) # as) \<and>
           lru_size s' = lru_size s + 1 \<and> lru_capacity s' = lru_capacity s"
proof -
  have "lru_set now key value opt s = Inr (lru_inserted now key value opt s)"
    using k room by (simp add: lru_set_eq lru_inserted_frame)
  then show ?thesis using lru_wf_inserted[OF wf k] by (simp add: lru_inserted_frame)
qed

lemma lru_set_new_full_wf:
  assumes wf: "lru_wf s as" and k: "map_of (lru_cache s) key = None"
    and full: "lru_size s + 1 > lru_capacity s" and cap: "0 < lru_capacity s"
  shows "\<exists>s'. lru_set now key value opt s = Inr s' \<and>
           lru_wf s' (length (lru_heap s) # butlast as) \<and>
           lru_size s' = lru_size s \<and> lru_capacity s' = lru_capacity s \<and>
           lru_cache s' = AList.delete (n_key (lru_heap s ! last as))
                            (AList.update key (length (lru_heap s)) (lru_cache s)) \<and>
           lru_calls s' =
             (if lru_onEviction s
              then lru_calls s @ [(n_key (lru_heap s ! last as), n_val (lru_heap s ! last as))]
              else lru_calls s)"
proof -
  let ?s1 = "lru_inserted now key value opt s"
  let ?a = "length (lru_heap s)"
  have ne: "as \<noteq> []" using full cap lru_wf_size[OF wf] by auto
  have wf1: "lru_wf ?s1 (?a # as)" using wf k by (rule lru_wf_inserted)
  have two: "2 \<le> length (?a # as)" using ne by (cases as) simp_all
  have set: "lru_set now key value opt s = lru_evict_tail ?s1"
    using k full by (simp add: lru_set_eq lru_inserted_frame)
  have la: "last (?a # as) = last as" and bl: "butlast (?a # as) = ?a # butlast as"
    using ne by simp_all
  have lt: "last as < length (lru_heap s)"
    using wf ne seg_bound[of "lru_heap s" None as None "last as"] by (simp add: lru_wf_alt)
  have data: "n_key (lru_heap ?s1 ! last as) = n_key (lru_heap s ! last as) \<and>
              n_val (lru_heap ?s1 ! last as) = n_val (lru_heap s ! last as)"
  proof -
    let ?h0 = "lru_heap s @ [\<lparr>n_key = key, n_val = value, n_prev = None,
                  n_next = lru_head s, n_expiry = expiry_of now (entry_maxAge opt (lru_maxAge s))\<rparr>]"
    have "same_data (lru_heap ?s1) ?h0"
      by (cases "lru_head s") (simp_all add: lru_inserted_def Let_def same_data_links)
    moreover have "?h0 ! last as = lru_heap s ! last as" using lt by (simp add: nth_append)
    ultimately show ?thesis by (simp add: same_data_def)
  qed
  note d1 = data[THEN conjunct1] and d2 = data[THEN conjunct2]
  from lru_wf_evict_tail[OF wf1 two]
  show ?thesis unfolding set la bl d1 d2 by (auto simp: lru_inserted_frame)
qed

lemma lru_set_keeps_bound:
  assumes wf: "lru_wf s as" and cap: "0 < lru_capacity s" and le: "lru_size s \<le> lru_capacity s"
  shows "\<exists>s' as'. lru_set now key value opt s = Inr s' \<and> lru_wf s' as' \<and>
           lru_size s' \<le> lru_capacity s' \<and> lru_capacity s' = lru_capacity s"
proof (cases "map_of (lru_cache s) key")
  case (Some a)
  from lru_set_present_wf[OF wf Some, of now "value" opt] le show ?thesis by auto
next
  case None
  show ?thesis
  proof (cases "lru_size s + 1 \<le> lru_capacity s")
    case True
    from lru_set_new_room_wf[OF wf None True, of now "value" opt] True show ?thesis by auto
  next
    case False
    then have "lru_size s + 1 > lru_capacity s" by simp
    from lru_set_new_full_wf[OF wf None this cap, of now "value" opt] le show ?thesis by auto
  qed
qed

lemma lru_sets_bound:
  assumes "lru_wf s as" "0 < lru_capacity s" "lru_size s \<le> lru_capacity s"
  shows "\<exists>ss. lru_sets cs s = Inr ss \<and> length ss = length cs \<and>
           (\<forall>s'\<in>set ss. lru_size s' \<le> lru_capacity s)"
  using assms
proof (induction cs arbitrary: s as)
  case Nil
  show ?case by simp
next
  case (Cons c cs)
  obtain now k v opt where c: "c = (now, k, v, opt)" by (cases c) auto
  from lru_set_keeps_bound[OF Cons.prems, of now k v opt]
  obtain s' as' where s': "lru_set now k v opt s = Inr s'" "lru_wf s' as'"
    "lru_size s' \<le> lru_capacity s'" "lru_capacity s' = lru_capacity s" by blast
  from Cons.IH[of s' as'] s' Cons.prems(2)
  obtain ss where ss: "lru_sets cs s' = Inr ss" "length ss = length cs"
    "\<forall>t\<in>set ss. lru_size t \<le> lru_capacity s" by auto
  show ?case using s' ss c by simp
qed

lemma lru_wf_fresh: "lru_wf (LRUCache options) []"
  by (simp add: lru_wf_def LRUCache_def)

subsection \<open>Every LRU operation but \<^verbatim>\<open>resize\<close> keeps the representation\<close>


lemma lru_delete_eq:
  "lru_delete key s =
     (case map_of (lru_cache s) key of
        None \<Rightarrow> (False, s)
      | Some a \<Rightarrow>
          (True, s\<lparr>lru_heap := unlinked (lru_heap s) a,
                   lru_head := (case n_prev (lru_heap s ! a) of
                                  Some p \<Rightarrow> lru_head s | None \<Rightarrow> n_next (lru_heap s ! a)),
                   lru_tail :=
                     (let h1 = (case n_prev (lru_heap s ! a) of
                                  Some p \<Rightarrow> (lru_heap s)[p := (lru_heap s ! p)\<lparr>n_next := n_next (lru_heap s ! a)\<rparr>]
                                | None \<Rightarrow> lru_heap s)
                      in (case n_next (h1 ! a) of Some n \<Rightarrow> lru_tail s | None \<Rightarrow> n_prev (h1 ! a))),
                   lru_cache := AList.delete key (lru_cache s),
                   lru_size := lru_size s - 1\<rparr>))"
  unfolding lru_delete_def unlinked_def Let_def by (rule refl)

lemma lru_wf_delete:
  assumes wf: "lru_wf s as" and k: "map_of (lru_cache s) key = Some a"
  shows "lru_wf (snd (lru_delete key s)) (remove1 a as)"
proof -
  define h where "h = lru_heap s"
  from wf have seg: "seg h None as None" and d: "distinct as"
    and hd: "lru_head s = first_or as None" and tl: "lru_tail s = last_or as None"
    and sz: "lru_size s = int (length as)" and dc: "distinct (map fst (lru_cache s))"
    and len: "length (lru_cache s) = length as"
    and i1: "\<forall>b\<in>set as. map_of (lru_cache s) (n_key (h ! b)) = Some b"
    and i2: "\<forall>k b. map_of (lru_cache s) k = Some b \<longrightarrow> b \<in> set as \<and> n_key (h ! b) = k"
    by (simp_all add: lru_wf_alt h_def)
  have a: "a \<in> set as" and ka: "n_key (h ! a) = key" using i2 k by blast+
  from a obtain xs ys where as: "as = xs @ a # ys" by (auto dest: split_list)
  have ax: "a \<notin> set xs" and ay: "a \<notin> set ys" using d as by auto
  have rm: "remove1 a as = xs @ ys" using ax as by (simp add: remove1_append)
  have pa: "n_prev (h ! a) = last_or xs None" and na: "n_next (h ! a) = first_or ys None"
    using seg as by (simp_all add: seg_append)
  define h1 where "h1 = (case n_prev (h ! a) of
                           Some p \<Rightarrow> h[p := (h ! p)\<lparr>n_next := n_next (h ! a)\<rparr>]
                         | None \<Rightarrow> h)"
  have h1a: "h1 ! a = h ! a"
  proof (cases xs rule: rev_cases)
    case Nil then show ?thesis using pa by (simp add: h1_def)
  next
    case (snoc xs' p)
    then have "p \<noteq> a" using ax by auto
    then show ?thesis using pa snoc by (simp add: h1_def)
  qed
  define s' where "s' = snd (lru_delete key s)"
  have heap: "lru_heap s' = unlinked h a"
    and head: "lru_head s' = (case n_prev (h ! a) of Some p \<Rightarrow> lru_head s | None \<Rightarrow> n_next (h ! a))"
    and tail: "lru_tail s' = (case n_next (h1 ! a) of Some n \<Rightarrow> lru_tail s | None \<Rightarrow> n_prev (h1 ! a))"
    and cache: "lru_cache s' = AList.delete key (lru_cache s)"
    and size: "lru_size s' = lru_size s - 1"
    using k unfolding s'_def h_def h1_def by (simp_all add: lru_delete_eq Let_def)
  have u: "seg (unlinked h a) None (xs @ ys) None"
    using unlinked_seg[of h xs a ys] seg d as by simp
  have D: "same_data (unlinked h a) h" by (rule same_data_unlinked)
  then have key: "n_key (unlinked h a ! b) = n_key (h ! b)" for b by (simp add: same_data_def)
  have hd': "lru_head s' = first_or (xs @ ys) None"
  proof (cases xs)
    case Nil then show ?thesis using head pa na by simp
  next
    case (Cons x xs')
    then show ?thesis using head pa hd as by (simp add: last_or_def)
  qed
  have tl': "lru_tail s' = last_or (xs @ ys) None"
  proof (cases ys rule: rev_cases)
    case Nil then show ?thesis using tail h1a pa na by simp
  next
    case (snoc ys' y)
    then have "n_next (h ! a) \<noteq> None" using na by (cases ys') simp_all
    then show ?thesis using tail h1a tl as snoc by (auto simp: last_or_def)
  qed
  have dxy: "distinct (xs @ ys)" using d as by auto
  have c2: "distinct (map fst (AList.delete key (lru_cache s)))" using dc by (rule distinct_delete)
  have "Suc (length (AList.delete key (lru_cache s))) = length (lru_cache s)"
    using dc k by (rule length_delete_present)
  then have c3: "length (AList.delete key (lru_cache s)) = length (xs @ ys)"
    using len as by simp
  have c4: "\<forall>b\<in>set (xs @ ys). map_of (AList.delete key (lru_cache s)) (n_key (unlinked h a ! b)) = Some b"
  proof
    fix b assume b: "b \<in> set (xs @ ys)"
    then have "b \<in> set as" and ba: "b \<noteq> a" using as ax ay by auto
    then have m: "map_of (lru_cache s) (n_key (h ! b)) = Some b" using i1 by blast
    then have "n_key (h ! b) \<noteq> key" using k ba by auto
    then show "map_of (AList.delete key (lru_cache s)) (n_key (unlinked h a ! b)) = Some b"
      using m by (simp add: key)
  qed
  have c5: "\<forall>k b. map_of (AList.delete key (lru_cache s)) k = Some b \<longrightarrow>
              b \<in> set (xs @ ys) \<and> n_key (unlinked h a ! b) = k"
  proof (intro allI impI)
    fix k b assume m: "map_of (AList.delete key (lru_cache s)) k = Some b"
    then have kk: "k \<noteq> key" by (auto simp: delete_conv' split: if_splits)
    then have "map_of (lru_cache s) k = Some b" using m by simp
    then have bL: "b \<in> set as" and kb: "n_key (h ! b) = k" using i2 by blast+
    then have "b \<noteq> a" using kk ka by auto
    then show "b \<in> set (xs @ ys) \<and> n_key (unlinked h a ! b) = k" using bL kb as by (auto simp: key)
  qed
  have sz': "lru_size s' = int (length (xs @ ys))" using size sz as by simp
  have "lru_wf s' (xs @ ys)"
    unfolding lru_wf_alt heap cache
    using u dxy hd' tl' sz' c2 c3 c4 c5 by blast
  then show ?thesis by (simp add: s'_def rm)
qed

lemma lru_delete_absent: "map_of (lru_cache s) key = None \<Longrightarrow> lru_delete key s = (False, s)"
  by (simp add: lru_delete_def)

lemma lru_delete_capacity: "lru_capacity (snd (lru_delete key s)) = lru_capacity s"
  by (simp add: lru_delete_eq split: option.split)

lemma lru_wf_get:
  assumes wf: "lru_wf s as"
  shows "\<exists>as'. lru_wf (snd (lru_get now key s)) as'"
proof (cases "map_of (lru_cache s) key")
  case None
  then show ?thesis using wf by (auto simp: lru_get_def)
next
  case (Some a)
  show ?thesis
  proof (cases "is_expired (n_expiry (lru_heap s ! a)) now")
    case True
    then have "snd (lru_get now key s) = snd (lru_delete key s)"
      using Some by (simp add: lru_get_def lru_getOrDeleteIfExpired_def lru_deleteIfExpired_def)
    then show ?thesis using lru_wf_delete[OF wf Some] by auto
  next
    case False
    then have "snd (lru_get now key s) = lru_moveToHead a s"
      using Some
      by (simp add: lru_get_def lru_getOrDeleteIfExpired_def lru_deleteIfExpired_def Let_def)
    moreover have "a \<in> set as" using wf Some by (rule lru_wf_cache_mem)
    ultimately show ?thesis using lru_wf_moveToHead[OF wf] by auto
  qed
qed

lemma lru_get_capacity: "lru_capacity (snd (lru_get now key s)) = lru_capacity s"
  by (simp add: lru_get_def lru_getOrDeleteIfExpired_def lru_deleteIfExpired_def Let_def
      lru_delete_capacity lru_moveToHead_frame split: option.split)

lemma lru_wf_clear: "lru_wf (lru_clear s) []"
  by (simp add: lru_wf_def lru_clear_def)

lemma lru_set_wf:
  assumes wf: "lru_wf s as" and cap: "0 < lru_capacity s"
  shows "\<exists>s' as'. lru_set now key value opt s = Inr s' \<and> lru_wf s' as' \<and>
           lru_capacity s' = lru_capacity s"
proof (cases "map_of (lru_cache s) key")
  case (Some a)
  from lru_set_present_wf[OF wf Some, of now "value" opt] show ?thesis by auto
next
  case None
  show ?thesis
  proof (cases "lru_size s + 1 \<le> lru_capacity s")
    case True
    from lru_set_new_room_wf[OF wf None True, of now "value" opt] show ?thesis by auto
  next
    case False
    then have "lru_size s + 1 > lru_capacity s" by simp
    from lru_set_new_full_wf[OF wf None this cap, of now "value" opt] show ?thesis by auto
  qed
qed

lemma lru_run_wf:
  assumes "lru_wf s as" "0 < lru_capacity s" "list_all (\<lambda>c. \<not> is_resize c) cs"
  shows "\<exists>s' as'. lru_run cs s = Inr s' \<and> lru_wf s' as' \<and> lru_capacity s' = lru_capacity s"
  using assms
proof (induction cs arbitrary: s as)
  case Nil
  then show ?case by auto
next
  case (Cons c cs)
  have "\<exists>s1 as1. lru_call c s = Inr s1 \<and> lru_wf s1 as1 \<and> lru_capacity s1 = lru_capacity s"
  proof (cases c)
    case (Call_set now k v opt)
    then show ?thesis using lru_set_wf[OF Cons.prems(1,2), of now k v opt] by simp
  next
    case (Call_get now k)
    then show ?thesis using lru_wf_get[OF Cons.prems(1), of now k] by (simp add: lru_get_capacity)
  next
    case (Call_peek now k)
    have "lru_peek now k s = lru_get now k s" by (simp add: lru_peek_def lru_get_def)
    then show ?thesis using Call_peek lru_wf_get[OF Cons.prems(1), of now k]
      by (simp add: lru_get_capacity)
  next
    case (Call_delete k)
    show ?thesis
    proof (cases "map_of (lru_cache s) k")
      case None
      then show ?thesis using Call_delete Cons.prems(1) by (auto simp: lru_delete_absent)
    next
      case (Some a)
      then show ?thesis using Call_delete lru_wf_delete[OF Cons.prems(1) Some]
        by (auto simp: lru_delete_capacity)
    qed
  next
    case Call_clear
    then show ?thesis using lru_wf_clear[of s] by (auto simp: lru_clear_def)
  next
    case (Call_resize now n)
    then show ?thesis using Cons.prems(3) by simp
  qed
  then obtain s1 as1 where s1: "lru_call c s = Inr s1" "lru_wf s1 as1" "lru_capacity s1 = lru_capacity s"
    by blast
  from Cons.IH[of s1 as1] s1 Cons.prems
  obtain s' as' where "lru_run cs s1 = Inr s'" "lru_wf s' as'" "lru_capacity s' = lru_capacity s"
    by auto
  then show ?case using s1 by auto
qed

lemma lru_set_present_effect:
  assumes wf: "lru_wf s as" and k: "map_of (lru_cache s) key = Some a"
  shows "\<exists>s'. lru_set now key value opt s = Inr s' \<and> lru_head s' = Some a \<and>
           n_val (lru_heap s' ! a) = value \<and>
           n_expiry (lru_heap s' ! a) = n_expiry (lru_heap s ! a)"
proof -
  let ?h0 = "(lru_heap s)[a := (lru_heap s ! a)\<lparr>n_val := value\<rparr>]"
  let ?s0 = "s\<lparr>lru_heap := ?h0\<rparr>"
  have a: "a \<in> set as" using wf k by (rule lru_wf_cache_mem)
  then have al: "a < length (lru_heap s)"
    using wf seg_bound[of "lru_heap s" None as None a] by (simp add: lru_wf_alt)
  have set: "lru_set now key value opt s = Inr (lru_moveToHead a ?s0)"
    using k by (simp add: lru_set_eq)
  have "lru_wf ?s0 as" using wf by (rule lru_wf_set_val)
  then have "lru_wf (lru_moveToHead a ?s0) (a # remove1 a as)" using a by (rule lru_wf_moveToHead)
  then have hd: "lru_head (lru_moveToHead a ?s0) = Some a" by (simp add: lru_wf_alt)
  have "same_data (lru_heap (lru_moveToHead a ?s0)) ?h0"
    using lru_moveToHead_data[of a ?s0] by simp
  then have "n_val (lru_heap (lru_moveToHead a ?s0) ! a) = n_val (?h0 ! a)"
    "n_expiry (lru_heap (lru_moveToHead a ?s0) ! a) = n_expiry (?h0 ! a)"
    by (simp_all add: same_data_def)
  then show ?thesis using set hd al by simp
qed

lemma lru_entries_loop_capacity:
  "lru_capacity (snd (lru_entries_loop now xs s)) = lru_capacity s"
proof (induction xs arbitrary: s)
  case Nil
  show ?case by simp
next
  case (Cons x xs)
  obtain k a where x: "x = (k, a)" by (cases x)
  show ?case
    by (simp add: x lru_deleteIfExpired_def Cons.IH lru_delete_capacity case_prod_beta)
qed

lemma lru_resize_capacity:
  "lru_resize now n s = Inr s' \<Longrightarrow> lru_capacity s' = lru_capacity s"
  using lru_entries_loop_capacity[of now "lru_cache s" s]
  by (auto simp: lru_resize_def lru_entriesAscendingInternal_def lru_emitEvictions_def Let_def
      split: if_splits prod.splits)

subsection \<open>The frequency buckets\<close>


lemma length_update_present:
  "map_of al k = Some v \<Longrightarrow> length (AList.update k v' al) = length al"
  by (induction al) (auto split: if_splits)

lemma lfu_updateFrequency_maps:
  "map_of (lfu_cache (lfu_updateFrequency node s)) =
     (map_of (lfu_cache s))(f_key node \<mapsto> node\<lparr>f_freq := f_freq node + 1\<rparr>)"
  "lfu_cache (lfu_updateFrequency node s) =
     AList.update (f_key node) (node\<lparr>f_freq := f_freq node + 1\<rparr>) (lfu_cache s)"
  "lfu_size (lfu_updateFrequency node s) = lfu_size s"
  "lfu_capacity (lfu_updateFrequency node s) = lfu_capacity s"
  "lfu_calls (lfu_updateFrequency node s) = lfu_calls s"
  "lfu_onEviction (lfu_updateFrequency node s) = lfu_onEviction s"
  "lfu_maxAge (lfu_updateFrequency node s) = lfu_maxAge s"
  by (simp_all add: lfu_updateFrequency_def Let_def update_conv')

lemma lfu_updateFrequency_freqMap:
  "map_of (lfu_freqMap (lfu_updateFrequency node s)) =
     (freq_without (map_of (lfu_freqMap s)) (f_freq node) (f_key node))
       (f_freq node + 1 \<mapsto>
          set_add (f_key node)
            (case freq_without (map_of (lfu_freqMap s)) (f_freq node) (f_key node) (f_freq node + 1) of
               None \<Rightarrow> [] | Some ks \<Rightarrow> ks))"
  by (auto simp: lfu_updateFrequency_def Let_def update_conv' delete_conv' freq_without_def set_delete_def
      split: option.splits)

lemma lfu_updateFrequency_minFreq:
  "lfu_minFreq (lfu_updateFrequency node s) =
     (if (\<exists>ks. map_of (lfu_freqMap s) (f_freq node) = Some ks \<and> removeAll (f_key node) ks = [])
         \<and> lfu_minFreq s = f_freq node
      then f_freq node + 1 else lfu_minFreq s)"
  by (auto simp: lfu_updateFrequency_def Let_def update_conv' set_delete_def split: option.splits)


lemma lfu_updateFrequency_wf:
  assumes wf: "lfu_wf s" and k: "map_of (lfu_cache s) k = Some node"
  shows "lfu_wf (lfu_updateFrequency node s)"
proof -
  define C where "C = map_of (lfu_cache s)"
  define F where "F = map_of (lfu_freqMap s)"
  define f where "f = f_freq node"
  define G where "G = freq_without F f k"
  define node' where "node' = node\<lparr>f_freq := Suc f\<rparr>"
  define F' where "F' = G(Suc f \<mapsto> set_add k (case G (Suc f) of None \<Rightarrow> [] | Some ks \<Rightarrow> ks))"
  from wf have dc: "distinct (map fst (lfu_cache s))"
    and sz: "lfu_size s = int (length (lfu_cache s))"
    and c: "\<And>k n. C k = Some n \<Longrightarrow> f_key n = k \<and> (\<exists>ks. F (f_freq n) = Some ks \<and> k \<in> set ks)"
    and d: "\<And>f ks. F f = Some ks \<Longrightarrow> ks \<noteq> [] \<and> (\<forall>k\<in>set ks. \<exists>n. C k = Some n \<and> f_freq n = f)"
    and m: "lfu_cache s \<noteq> [] \<longrightarrow> F (lfu_minFreq s) \<noteq> None"
    by (auto simp: lfu_wf_def lfu_core_def C_def F_def)
  have Ck: "C k = Some node" using k by (simp add: C_def)
  have kk: "f_key node = k" using c[OF Ck] by simp
  obtain ks where ks: "F f = Some ks" "k \<in> set ks" using c[OF Ck] by (auto simp: f_def)
  have C': "map_of (lfu_cache (lfu_updateFrequency node s)) = C(k \<mapsto> node')"
    by (simp add: lfu_updateFrequency_maps kk C_def node'_def f_def update_conv')
  have FF: "map_of (lfu_freqMap (lfu_updateFrequency node s)) = F'"
    by (simp add: lfu_updateFrequency_freqMap kk F'_def G_def F_def f_def)
  have Gf: "G f = (if removeAll k ks = [] then None else Some (removeAll k ks))"
    using ks by (simp add: G_def freq_without_def)
  have Go: "G g = F g" if "g \<noteq> f" for g
    using that ks by (simp add: G_def freq_without_def)
  have F'f1: "F' (Suc f) = Some (set_add k (case F (Suc f) of None \<Rightarrow> [] | Some ks \<Rightarrow> ks))"
    by (simp add: F'_def Go)
  have F'f: "F' f = (if removeAll k ks = [] then None else Some (removeAll k ks))"
    by (simp add: F'_def Gf)
  have F'o: "F' g = F g" if "g \<noteq> f" "g \<noteq> Suc f" for g
    using that by (simp add: F'_def Go)
  have c1: "distinct (map fst (lfu_cache (lfu_updateFrequency node s)))"
    using dc by (simp add: lfu_updateFrequency_maps distinct_update)
  have c2: "lfu_size (lfu_updateFrequency node s) = int (length (lfu_cache (lfu_updateFrequency node s)))"
    using sz k kk by (simp add: lfu_updateFrequency_maps length_update_present)
  have c3: "f_key n = j \<and> (\<exists>js. F' (f_freq n) = Some js \<and> j \<in> set js)"
    if "(C(k \<mapsto> node')) j = Some n" for j n
  proof (cases "j = k")
    case True
    then have "n = node'" using that by simp
    then show ?thesis using True kk by (simp add: node'_def F'f1 set_add_def)
  next
    case False
    then have Cj: "C j = Some n" using that by simp
    from c[OF Cj] obtain js where js: "f_key n = j" "F (f_freq n) = Some js" "j \<in> set js" by auto
    consider "f_freq n = f" | "f_freq n = Suc f" | "f_freq n \<noteq> f" "f_freq n \<noteq> Suc f" by blast
    then show ?thesis
    proof cases
      case 1
      then have "js = ks" using js ks by simp
      then have mem: "j \<in> set (removeAll k ks)" using js False by simp
      then have "removeAll k ks \<noteq> []" by (auto simp del: set_removeAll)
      then show ?thesis using 1 js mem by (simp add: F'f)
    next
      case 2
      then show ?thesis using js by (simp add: F'f1 set_add_def)
    next
      case 3
      then show ?thesis using js by (simp add: F'o)
    qed
  qed
  have c4: "js \<noteq> [] \<and> (\<forall>j\<in>set js. \<exists>n. (C(k \<mapsto> node')) j = Some n \<and> f_freq n = g)"
    if "F' g = Some js" for g js
  proof -
    consider "g = Suc f" | "g = f" | "g \<noteq> f" "g \<noteq> Suc f" by blast
    then show ?thesis
    proof cases
      case 1
      show ?thesis
      proof (cases "F (Suc f)")
        case None
        then have "js = [k]" using that 1 by (simp add: F'f1 set_add_def)
        then show ?thesis using 1 by (simp add: node'_def)
      next
        case (Some ls)
        then have js: "set js = insert k (set ls)" "js \<noteq> []"
          using that 1 by (auto simp: F'f1 set_add_def split: if_splits)
        have "\<exists>n. (C(k \<mapsto> node')) j = Some n \<and> f_freq n = g" if "j \<in> set ls" for j
          using d[OF Some] that 1 by (cases "j = k") (auto simp: node'_def)
        then show ?thesis using js 1 by (auto simp: node'_def)
      qed
    next
      case 2
      then have js: "js = removeAll k ks" "js \<noteq> []" using that by (auto simp: F'f split: if_splits)
      have "\<exists>n. (C(k \<mapsto> node')) j = Some n \<and> f_freq n = g" if "j \<in> set js" for j
        using d[OF ks(1)] that js 2 by auto
      then show ?thesis using js by blast
    next
      case 3
      then have Fg: "F g = Some js" using that by (simp add: F'o)
      have "\<exists>n. (C(k \<mapsto> node')) j = Some n \<and> f_freq n = g" if "j \<in> set js" for j
      proof -
        from d[OF Fg] that obtain n where n: "C j = Some n" "f_freq n = g" by blast
        then have "j \<noteq> k" using Ck 3 by (auto simp: f_def)
        then show ?thesis using n by simp
      qed
      then show ?thesis using d[OF Fg] by blast
    qed
  qed
  have c5: "F' (lfu_minFreq (lfu_updateFrequency node s)) \<noteq> None"
  proof -
    have ne: "lfu_cache s \<noteq> []" using k by auto
    then have mm: "F (lfu_minFreq s) \<noteq> None" using m by simp
    show ?thesis
    proof (cases "removeAll k ks = [] \<and> lfu_minFreq s = f")
      case True
      then have "lfu_minFreq (lfu_updateFrequency node s) = Suc f"
        using ks by (simp add: lfu_updateFrequency_minFreq kk F_def f_def)
      then show ?thesis by (simp add: F'f1)
    next
      case False
      then have e: "lfu_minFreq (lfu_updateFrequency node s) = lfu_minFreq s"
        using ks by (auto simp: lfu_updateFrequency_minFreq kk F_def f_def)
      consider "lfu_minFreq s = Suc f" | "lfu_minFreq s = f" | "lfu_minFreq s \<noteq> f" "lfu_minFreq s \<noteq> Suc f"
        by blast
      then show ?thesis
      proof cases
        case 1 then show ?thesis using e by (simp add: F'f1)
      next
        case 2 then show ?thesis using e False by (simp add: F'f)
      next
        case 3 then show ?thesis using e mm by (simp add: F'o)
      qed
    qed
  qed
  show ?thesis
    unfolding lfu_wf_def lfu_core_def C' FF
    using c1 c2 c3 c4 c5 by blast
qed


lemma lfu_wf_fresh: "lfu_wf (LFUCache options)"
  by (simp add: lfu_wf_def lfu_core_def LFUCache_def)

lemma lfu_wf_touch:
  assumes wf: "lfu_wf s" and k: "map_of (lfu_cache s) k = Some node"
  shows "lfu_wf (s\<lparr>lfu_cache := AList.update k (node\<lparr>f_val := v, f_expiry := e\<rparr>) (lfu_cache s)\<rparr>)"
proof -
  define n' where "n' = node\<lparr>f_val := v, f_expiry := e\<rparr>"
  define C where "C = map_of (lfu_cache s)"
  define F where "F = map_of (lfu_freqMap s)"
  from wf have dc: "distinct (map fst (lfu_cache s))"
    and sz: "lfu_size s = int (length (lfu_cache s))"
    and c: "\<And>k n. C k = Some n \<Longrightarrow> f_key n = k \<and> (\<exists>ks. F (f_freq n) = Some ks \<and> k \<in> set ks)"
    and d: "\<And>f ks. F f = Some ks \<Longrightarrow> ks \<noteq> [] \<and> (\<forall>k\<in>set ks. \<exists>n. C k = Some n \<and> f_freq n = f)"
    and m: "lfu_cache s \<noteq> [] \<longrightarrow> F (lfu_minFreq s) \<noteq> None"
    by (auto simp: lfu_wf_def lfu_core_def C_def F_def)
  have Ck: "C k = Some node" using k by (simp add: C_def)
  have ne: "lfu_cache s \<noteq> []" using k by auto
  have fk: "f_key n' = f_key node" and ff: "f_freq n' = f_freq node" by (simp_all add: n'_def)
  have c3: "f_key n = j \<and> (\<exists>js. F (f_freq n) = Some js \<and> j \<in> set js)"
    if h: "(C(k \<mapsto> n')) j = Some n" for j n
  proof (cases "j = k")
    case True
    then have "n = n'" using h by simp
    then show ?thesis using c[OF Ck] True fk ff by simp
  next
    case False
    then have "C j = Some n" using h by simp
    then show ?thesis by (rule c)
  qed
  have c4: "js \<noteq> [] \<and> (\<forall>j\<in>set js. \<exists>n. (C(k \<mapsto> n')) j = Some n \<and> f_freq n = g)"
    if h: "F g = Some js" for g js
  proof -
    have "\<exists>n. (C(k \<mapsto> n')) j = Some n \<and> f_freq n = g" if j: "j \<in> set js" for j
    proof -
      from d[OF h] j obtain n where n: "C j = Some n" "f_freq n = g" by blast
      show ?thesis
      proof (cases "j = k")
        case True
        then have "n = node" using n Ck by simp
        then show ?thesis using True n ff by simp
      next
        case False
        then show ?thesis using n by simp
      qed
    qed
    then show ?thesis using d[OF h] by blast
  qed
  have e1: "map_of (AList.update k n' (lfu_cache s)) = C(k \<mapsto> n')"
    by (simp add: update_conv' C_def)
  have e2: "length (AList.update k n' (lfu_cache s)) = length (lfu_cache s)"
    using k by (rule length_update_present)
  have e3: "distinct (map fst (AList.update k n' (lfu_cache s)))"
    using dc by (rule distinct_update)
  have core: "lfu_core (s\<lparr>lfu_cache := AList.update k n' (lfu_cache s)\<rparr>)"
    unfolding lfu_core_def
  proof (intro conjI allI impI)
    show "distinct (map fst (lfu_cache (s\<lparr>lfu_cache := AList.update k n' (lfu_cache s)\<rparr>)))"
      using e3 by simp
    show "lfu_size (s\<lparr>lfu_cache := AList.update k n' (lfu_cache s)\<rparr>) =
          int (length (lfu_cache (s\<lparr>lfu_cache := AList.update k n' (lfu_cache s)\<rparr>)))"
      using sz e2 by simp
  next
    fix j n assume "map_of (lfu_cache (s\<lparr>lfu_cache := AList.update k n' (lfu_cache s)\<rparr>)) j = Some n"
    then have h: "(C(k \<mapsto> n')) j = Some n" by (simp add: e1)
    from c3[OF h] show "f_key n = j" by simp
    from c3[OF h]
    show "\<exists>ks. map_of (lfu_freqMap (s\<lparr>lfu_cache := AList.update k n' (lfu_cache s)\<rparr>)) (f_freq n) = Some ks \<and> j \<in> set ks"
      by (simp add: F_def)
  next
    fix g js assume "map_of (lfu_freqMap (s\<lparr>lfu_cache := AList.update k n' (lfu_cache s)\<rparr>)) g = Some js"
    then have h: "F g = Some js" by (simp add: F_def)
    from c4[OF h] show "js \<noteq> []" by simp
    from c4[OF h]
    show "\<forall>j\<in>set js. \<exists>n. map_of (lfu_cache (s\<lparr>lfu_cache := AList.update k n' (lfu_cache s)\<rparr>)) j = Some n \<and> f_freq n = g"
      by (simp add: e1)
  qed
  have "lfu_wf (s\<lparr>lfu_cache := AList.update k n' (lfu_cache s)\<rparr>)"
    unfolding lfu_wf_def using core m ne by (simp add: F_def)
  then show ?thesis by (simp add: n'_def)
qed

lemma lfu_evict_core:
  assumes wf: "lfu_wf s" and ne: "lfu_cache s \<noteq> []"
  shows "lfu_core (lfu_evict s) \<and> lfu_size (lfu_evict s) = lfu_size s - 1 \<and>
         lfu_capacity (lfu_evict s) = lfu_capacity s \<and>
         (map_of (lfu_cache s) key = None \<longrightarrow> map_of (lfu_cache (lfu_evict s)) key = None)"
proof -
  define C where "C = map_of (lfu_cache s)"
  define F where "F = map_of (lfu_freqMap s)"
  define f where "f = lfu_minFreq s"
  from wf have dc: "distinct (map fst (lfu_cache s))"
    and sz: "lfu_size s = int (length (lfu_cache s))"
    and c: "\<And>k n. C k = Some n \<Longrightarrow> f_key n = k \<and> (\<exists>ks. F (f_freq n) = Some ks \<and> k \<in> set ks)"
    and d: "\<And>f ks. F f = Some ks \<Longrightarrow> ks \<noteq> [] \<and> (\<forall>k\<in>set ks. \<exists>n. C k = Some n \<and> f_freq n = f)"
    and m: "lfu_cache s \<noteq> [] \<longrightarrow> F (lfu_minFreq s) \<noteq> None"
    by (auto simp: lfu_wf_def lfu_core_def C_def F_def)
  from m ne obtain ks0 where ks0: "F f = Some ks0" by (auto simp: f_def)
  from d[OF ks0] obtain k ks where ks: "ks0 = k # ks" by (cases ks0) auto
  from d[OF ks0] ks obtain node where node: "C k = Some node" "f_freq node = f" by auto
  define rest where "rest = removeAll k ks"
  define fm where "fm = (if rest = [] then AList.delete f (lfu_freqMap s)
                         else AList.update f rest (lfu_freqMap s))"
  define s' where "s' = s\<lparr>lfu_freqMap := fm,
                             lfu_cache := AList.delete k (lfu_cache s),
                             lfu_size := lfu_size s - 1,
                             lfu_calls := (if lfu_onEviction s
                                           then lfu_calls s @ [(k, f_val node)]
                                           else lfu_calls s)\<rparr>"
  have ev: "lfu_evict s = s'"
    using ks0 ks node
    by (simp add: lfu_evict_def Let_def set_delete_def fm_def rest_def F_def C_def f_def s'_def)
  have F': "map_of fm = (if rest = [] then F(f := None) else F(f \<mapsto> rest))"
    by (simp add: fm_def update_conv' delete_conv' F_def)
  have C': "map_of (AList.delete k (lfu_cache s)) = C(k := None)"
    by (simp add: delete_conv' C_def)
  have c1: "distinct (map fst (AList.delete k (lfu_cache s)))" using dc by (rule distinct_delete)
  have "Suc (length (AList.delete k (lfu_cache s))) = length (lfu_cache s)"
    using dc node(1)[unfolded C_def] by (rule length_delete_present)
  then have c2: "lfu_size s - 1 = int (length (AList.delete k (lfu_cache s)))"
    using sz by simp
  have c3: "f_key n = j \<and> (\<exists>js. map_of fm (f_freq n) = Some js \<and> j \<in> set js)"
    if h: "(C(k := None)) j = Some n" for j n
  proof -
    from h have jk: "j \<noteq> k" by (auto split: if_splits)
    with h have Cj: "C j = Some n" by simp
    from c[OF Cj] obtain js where js: "f_key n = j" "F (f_freq n) = Some js" "j \<in> set js" by auto
    show ?thesis
    proof (cases "f_freq n = f")
      case True
      then have "js = k # ks" using js ks0 ks by simp
      then have mem: "j \<in> set rest" using js jk by (simp add: rest_def)
      then have "rest \<noteq> []" by (auto simp del: set_removeAll)
      then show ?thesis using True js(1) mem by (simp add: F')
    next
      case False
      then show ?thesis using js by (simp add: F')
    qed
  qed
  have c4: "js \<noteq> [] \<and> (\<forall>j\<in>set js. \<exists>n. (C(k := None)) j = Some n \<and> f_freq n = g)"
    if h: "map_of fm g = Some js" for g js
  proof (cases "g = f")
    case True
    then have js: "js = rest" "rest \<noteq> []" using h by (auto simp: F' split: if_splits)
    have "\<exists>n. (C(k := None)) j = Some n \<and> f_freq n = g" if j: "j \<in> set js" for j
    proof -
      have jj: "j \<in> set ks0" "j \<noteq> k" using j js ks by (auto simp: rest_def)
      from d[OF ks0] jj(1) obtain n where "C j = Some n" "f_freq n = f" by blast
      then show ?thesis using jj(2) True by simp
    qed
    then show ?thesis using js by blast
  next
    case False
    then have Fg: "F g = Some js" using h by (auto simp: F' split: if_splits)
    have "\<exists>n. (C(k := None)) j = Some n \<and> f_freq n = g" if j: "j \<in> set js" for j
    proof -
      from d[OF Fg] j obtain n where n: "C j = Some n" "f_freq n = g" by blast
      then have "j \<noteq> k" using node False by auto
      then show ?thesis using n by simp
    qed
    then show ?thesis using d[OF Fg] by blast
  qed
  have core: "lfu_core s'"
    unfolding lfu_core_def
  proof (intro conjI allI impI)
    show "distinct (map fst (lfu_cache s'))" using c1 by (simp add: s'_def)
    show "lfu_size s' = int (length (lfu_cache s'))" using c2 by (simp add: s'_def)
  next
    fix j n assume "map_of (lfu_cache s') j = Some n"
    then have h: "(C(k := None)) j = Some n" by (simp add: s'_def C')
    from c3[OF h] show "f_key n = j" by simp
    from c3[OF h] show "\<exists>ks. map_of (lfu_freqMap s') (f_freq n) = Some ks \<and> j \<in> set ks"
      by (simp add: s'_def)
  next
    fix g js assume "map_of (lfu_freqMap s') g = Some js"
    then have h: "map_of fm g = Some js" by (simp add: s'_def)
    from c4[OF h] show "js \<noteq> []" by simp
    from c4[OF h] show "\<forall>j\<in>set js. \<exists>n. map_of (lfu_cache s') j = Some n \<and> f_freq n = g"
      by (simp add: s'_def C')
  qed
  have "map_of (lfu_cache s) key = None \<longrightarrow> map_of (lfu_cache s') key = None"
    by (simp add: s'_def C' C_def)
  then show ?thesis using core unfolding ev by (simp add: s'_def)
qed

lemma lfu_insert_wf:
  assumes core: "lfu_core s1" and nk: "map_of (lfu_cache s1) key = None"
    and nd: "f_key node = key" "f_freq node = 1"
  shows "lfu_wf (s1\<lparr>lfu_cache := AList.update key node (lfu_cache s1),
                    lfu_freqMap :=
                       (case map_of (lfu_freqMap s1) 1 of
                          None \<Rightarrow> AList.update 1 [key] (lfu_freqMap s1)
                        | Some ks \<Rightarrow> AList.update 1 (set_add key ks) (lfu_freqMap s1)),
                    lfu_minFreq := 1,
                    lfu_size := lfu_size s1 + 1\<rparr>)"
    (is "lfu_wf ?s2")
proof -
  define C where "C = map_of (lfu_cache s1)"
  define F where "F = map_of (lfu_freqMap s1)"
  define b1 where "b1 = set_add key (case F 1 of None \<Rightarrow> [] | Some ks \<Rightarrow> ks)"
  from core have dc: "distinct (map fst (lfu_cache s1))"
    and sz: "lfu_size s1 = int (length (lfu_cache s1))"
    and c: "\<And>k n. C k = Some n \<Longrightarrow> f_key n = k \<and> (\<exists>ks. F (f_freq n) = Some ks \<and> k \<in> set ks)"
    and d: "\<And>f ks. F f = Some ks \<Longrightarrow> ks \<noteq> [] \<and> (\<forall>k\<in>set ks. \<exists>n. C k = Some n \<and> f_freq n = f)"
    by (auto simp: lfu_core_def C_def F_def)
  have Ck: "C key = None" using nk by (simp add: C_def)
  have C': "map_of (lfu_cache ?s2) = C(key \<mapsto> node)" by (simp add: update_conv' C_def)
  have F': "map_of (lfu_freqMap ?s2) = F(1 \<mapsto> b1)"
    by (cases "F 1") (simp_all add: update_conv' F_def b1_def set_add_def)
  have b1k: "key \<in> set b1" "b1 \<noteq> []"
    by (cases "F 1"; auto simp: b1_def set_add_def)+
  have b1o: "j \<in> set b1 \<Longrightarrow> j \<noteq> key \<Longrightarrow> \<exists>ks. F 1 = Some ks \<and> j \<in> set ks" for j
    by (cases "F 1") (auto simp: b1_def set_add_def split: if_splits)
  have b1i: "F 1 = Some ks \<Longrightarrow> j \<in> set ks \<Longrightarrow> j \<in> set b1" for j ks
    by (cases "F 1") (auto simp: b1_def set_add_def)
  have c1: "distinct (map fst (lfu_cache ?s2))" using dc by (simp add: distinct_update)
  have c2: "lfu_size ?s2 = int (length (lfu_cache ?s2))"
    using sz nk by (simp add: length_update_new)
  have c3: "f_key n = j \<and> (\<exists>js. (F(1 \<mapsto> b1)) (f_freq n) = Some js \<and> j \<in> set js)"
    if h: "(C(key \<mapsto> node)) j = Some n" for j n
  proof (cases "j = key")
    case True
    then have "n = node" using h by simp
    then show ?thesis using True nd b1k by simp
  next
    case False
    then have Cj: "C j = Some n" using h by simp
    from c[OF Cj] obtain js where js: "f_key n = j" "F (f_freq n) = Some js" "j \<in> set js" by auto
    show ?thesis
    proof (cases "f_freq n = 1")
      case True
      then show ?thesis using js b1i[of js j] by simp
    next
      case False
      then show ?thesis using js by simp
    qed
  qed
  have c4: "js \<noteq> [] \<and> (\<forall>j\<in>set js. \<exists>n. (C(key \<mapsto> node)) j = Some n \<and> f_freq n = g)"
    if h: "(F(1 \<mapsto> b1)) g = Some js" for g js
  proof (cases "g = 1")
    case True
    then have js: "js = b1" using h by simp
    have "\<exists>n. (C(key \<mapsto> node)) j = Some n \<and> f_freq n = g" if j: "j \<in> set js" for j
    proof (cases "j = key")
      case True
      then show ?thesis using nd \<open>g = 1\<close> by simp
    next
      case False
      from b1o[OF j[unfolded js] False] obtain ks where ks: "F 1 = Some ks" "j \<in> set ks" by blast
      from d[OF ks(1)] ks(2) obtain n where "C j = Some n" "f_freq n = 1" by blast
      then show ?thesis using False \<open>g = 1\<close> by simp
    qed
    then show ?thesis using js b1k by blast
  next
    case False
    then have Fg: "F g = Some js" using h by simp
    have "\<exists>n. (C(key \<mapsto> node)) j = Some n \<and> f_freq n = g" if j: "j \<in> set js" for j
    proof -
      from d[OF Fg] j obtain n where n: "C j = Some n" "f_freq n = g" by blast
      then have "j \<noteq> key" using Ck by auto
      then show ?thesis using n by simp
    qed
    then show ?thesis using d[OF Fg] by blast
  qed
  have core2: "lfu_core ?s2"
    unfolding lfu_core_def
  proof (intro conjI allI impI)
    show "distinct (map fst (lfu_cache ?s2))" by (rule c1)
    show "lfu_size ?s2 = int (length (lfu_cache ?s2))" by (rule c2)
  next
    fix j n assume "map_of (lfu_cache ?s2) j = Some n"
    then have h: "(C(key \<mapsto> node)) j = Some n" by (simp only: C')
    from c3[OF h] show "f_key n = j" by (rule conjunct1)
    from c3[OF h] show "\<exists>ks. map_of (lfu_freqMap ?s2) (f_freq n) = Some ks \<and> j \<in> set ks"
      unfolding F' by (rule conjunct2)
  next
    fix g js assume "map_of (lfu_freqMap ?s2) g = Some js"
    then have h: "(F(1 \<mapsto> b1)) g = Some js" by (simp only: F')
    from c4[OF h] show "js \<noteq> []" by (rule conjunct1)
    from c4[OF h] show "\<forall>j\<in>set js. \<exists>n. map_of (lfu_cache ?s2) j = Some n \<and> f_freq n = g"
      unfolding C' by (rule conjunct2)
  qed
  have "map_of (lfu_freqMap ?s2) (lfu_minFreq ?s2) \<noteq> None"
    unfolding F' by simp
  then show ?thesis unfolding lfu_wf_def using core2 by blast
qed


lemma lfu_wf_size: "lfu_wf s \<Longrightarrow> lfu_size s = int (length (lfu_cache s))"
  by (simp add: lfu_wf_def lfu_core_def)

lemma lfu_set_keeps_bound:
  assumes wf: "lfu_wf s" and cap: "0 < lfu_capacity s" and le: "lfu_size s \<le> lfu_capacity s"
  shows "lfu_wf (lfu_set now key value opt s) \<and>
         lfu_size (lfu_set now key value opt s) \<le> lfu_capacity (lfu_set now key value opt s) \<and>
         lfu_capacity (lfu_set now key value opt s) = lfu_capacity s"
proof (cases "map_of (lfu_cache s) key")
  case (Some node)
  define e where "e = expiry_of now (entry_maxAge opt (lfu_maxAge s))"
  define n' where "n' = node\<lparr>f_val := value, f_expiry := e\<rparr>"
  define s0 where "s0 = s\<lparr>lfu_cache := AList.update key n' (lfu_cache s)\<rparr>"
  have set: "lfu_set now key value opt s = lfu_updateFrequency n' s0"
    using Some by (simp add: lfu_set_def Let_def n'_def s0_def e_def)
  have wf0: "lfu_wf s0" unfolding s0_def n'_def using wf Some by (rule lfu_wf_touch)
  have k0: "map_of (lfu_cache s0) key = Some n'" by (simp add: s0_def update_conv')
  have "lfu_wf (lfu_updateFrequency n' s0)" using wf0 k0 by (rule lfu_updateFrequency_wf)
  then show ?thesis using le unfolding set by (simp add: lfu_updateFrequency_maps s0_def)
next
  case None
  define e where "e = expiry_of now (entry_maxAge opt (lfu_maxAge s))"
  define s1 where "s1 = (if lfu_size s \<ge> lfu_capacity s then lfu_evict s else s)"
  define node where "node = \<lparr>f_key = key, f_val = value, f_freq = 1, f_expiry = e\<rparr>"
  define s2 where "s2 = s1\<lparr>lfu_cache := AList.update key node (lfu_cache s1),
                    lfu_freqMap :=
                       (case map_of (lfu_freqMap s1) 1 of
                          None \<Rightarrow> AList.update 1 [key] (lfu_freqMap s1)
                        | Some ks \<Rightarrow> AList.update 1 (set_add key ks) (lfu_freqMap s1)),
                    lfu_minFreq := 1,
                    lfu_size := lfu_size s1 + 1\<rparr>"
  have set: "lfu_set now key value opt s = s2"
    using None unfolding lfu_set_def Let_def s2_def s1_def node_def e_def by simp
  have s1: "lfu_core s1 \<and> map_of (lfu_cache s1) key = None \<and> lfu_size s1 + 1 \<le> lfu_capacity s \<and>
            lfu_capacity s1 = lfu_capacity s"
  proof (cases "lfu_size s \<ge> lfu_capacity s")
    case True
    then have "lfu_cache s \<noteq> []" using cap lfu_wf_size[OF wf] by auto
    from lfu_evict_core[OF wf this, of key] None True le show ?thesis by (simp add: s1_def)
  next
    case False
    then show ?thesis using wf None by (simp add: s1_def lfu_wf_def)
  qed
  have "lfu_wf s2" unfolding s2_def
    using s1 by (intro lfu_insert_wf) (simp_all add: node_def)
  then show ?thesis unfolding set using s1 by (simp add: s2_def)
qed

lemma lfu_sets_bound:
  assumes "lfu_wf s" "0 < lfu_capacity s" "lfu_size s \<le> lfu_capacity s"
  shows "\<forall>s'\<in>set (lfu_sets cs s). lfu_size s' \<le> lfu_capacity s"
  using assms
proof (induction cs arbitrary: s)
  case Nil
  show ?case by simp
next
  case (Cons c cs)
  obtain now k v opt where c: "c = (now, k, v, opt)" by (cases c) auto
  let ?s' = "lfu_set now k v opt s"
  from lfu_set_keeps_bound[OF Cons.prems, of now k v opt]
  have s': "lfu_wf ?s'" "lfu_size ?s' \<le> lfu_capacity ?s'" "lfu_capacity ?s' = lfu_capacity s"
    by simp_all
  from Cons.IH[of ?s'] s' Cons.prems(2)
  have "\<forall>t\<in>set (lfu_sets cs ?s'). lfu_size t \<le> lfu_capacity s" by simp
  then show ?case using s' c by (simp add: Let_def)
qed

lemma lfu_delete_capacity: "lfu_capacity (snd (lfu_delete key s)) = lfu_capacity s"
  by (simp add: lfu_delete_def Let_def split: option.split)

lemma lfu_entries_loop_capacity:
  "lfu_capacity (snd (lfu_entries_loop now xs s)) = lfu_capacity s"
proof (induction xs arbitrary: s)
  case Nil
  show ?case by simp
next
  case (Cons x xs)
  obtain k a where x: "x = (k, a)" by (cases x)
  show ?case
    by (simp add: x lfu_deleteIfExpired_def Cons.IH lfu_delete_capacity case_prod_beta)
qed

lemma lfu_resize_capacity:
  "lfu_resize now n s = Inr s' \<Longrightarrow> lfu_capacity s' = lfu_capacity s"
  using lfu_entries_loop_capacity[of now "lfu_cache s" s]
  by (auto simp: lfu_resize_def lfu_entriesAscendingInternal_def lfu_emitEvictions_def Let_def
      split: if_splits prod.splits)

lemma lfu_lowest_fresh: "lfu_lowest (LFUCache options)"
  by (simp add: lfu_lowest_def LFUCache_def)

lemma lfu_updateFrequency_lowest:
  assumes wf: "lfu_wf s" and low: "lfu_lowest s" and k: "map_of (lfu_cache s) k = Some node"
  shows "lfu_lowest (lfu_updateFrequency node s)"
proof -
  define F where "F = map_of (lfu_freqMap s)"
  define f where "f = f_freq node"
  define G where "G = freq_without F f k"
  define F' where "F' = G(Suc f \<mapsto> set_add k (case G (Suc f) of None \<Rightarrow> [] | Some ks \<Rightarrow> ks))"
  from wf k have kk: "f_key node = k" and "\<exists>ks. F f = Some ks \<and> k \<in> set ks"
    by (auto simp: lfu_wf_def lfu_core_def F_def f_def)
  then obtain ks where ks: "F f = Some ks" by blast
  from low have lo: "\<And>g js. F g = Some js \<Longrightarrow> lfu_minFreq s \<le> g \<and> 1 \<le> g"
    by (auto simp: lfu_lowest_def F_def)
  have FF: "map_of (lfu_freqMap (lfu_updateFrequency node s)) = F'"
    by (simp add: lfu_updateFrequency_freqMap kk F'_def G_def F_def f_def)
  have mf: "lfu_minFreq (lfu_updateFrequency node s) =
     (if removeAll k ks = [] \<and> lfu_minFreq s = f then Suc f else lfu_minFreq s)"
    using ks by (simp add: lfu_updateFrequency_minFreq kk F_def f_def)
  have Gf: "G f = (if removeAll k ks = [] then None else Some (removeAll k ks))"
    using ks by (simp add: G_def freq_without_def)
  have Go: "G g = F g" if "g \<noteq> f" for g
    using that ks by (simp add: G_def freq_without_def)
  have "lfu_minFreq (lfu_updateFrequency node s) \<le> g \<and> 1 \<le> g" if h: "F' g = Some js" for g js
  proof -
    consider "g = Suc f" | "g = f" | "g \<noteq> f" "g \<noteq> Suc f" by blast
    then show ?thesis
    proof cases
      case 1
      then show ?thesis using lo[OF ks] by (simp add: mf)
    next
      case 2
      then have "removeAll k ks \<noteq> []" using h by (auto simp: F'_def Gf split: if_splits)
      then show ?thesis using 2 lo[OF ks] by (simp add: mf)
    next
      case 3
      then have Fg: "F g = Some js" using h by (simp add: F'_def Go)
      from lo[OF Fg] 3 show ?thesis by (auto simp: mf)
    qed
  qed
  then show ?thesis unfolding lfu_lowest_def FF by blast
qed

lemma lfu_set_lowest:
  assumes wf: "lfu_wf s" and low: "lfu_lowest s"
  shows "lfu_lowest (lfu_set now key value opt s)"
proof (cases "map_of (lfu_cache s) key")
  case (Some node)
  define e where "e = expiry_of now (entry_maxAge opt (lfu_maxAge s))"
  define n' where "n' = node\<lparr>f_val := value, f_expiry := e\<rparr>"
  define s0 where "s0 = s\<lparr>lfu_cache := AList.update key n' (lfu_cache s)\<rparr>"
  have set: "lfu_set now key value opt s = lfu_updateFrequency n' s0"
    using Some by (simp add: lfu_set_def Let_def n'_def s0_def e_def)
  have wf0: "lfu_wf s0" unfolding s0_def n'_def using wf Some by (rule lfu_wf_touch)
  have low0: "lfu_lowest s0" using low by (simp add: lfu_lowest_def s0_def)
  have k0: "map_of (lfu_cache s0) key = Some n'" by (simp add: s0_def update_conv')
  show ?thesis unfolding set using wf0 low0 k0 by (rule lfu_updateFrequency_lowest)
next
  case None
  define s1 where "s1 = (if lfu_size s \<ge> lfu_capacity s then lfu_evict s else s)"
  have one: "1 \<le> g" if "map_of (lfu_freqMap s1) g = Some js" for g js
  proof (cases "lfu_size s \<ge> lfu_capacity s")
    case False
    then show ?thesis using that low by (auto simp: s1_def lfu_lowest_def)
  next
    case True
    then have "map_of (lfu_freqMap (lfu_evict s)) g = Some js" using that by (simp add: s1_def)
    then have "\<exists>js'. map_of (lfu_freqMap s) g = Some js'"
      by (auto simp: lfu_evict_def Let_def delete_conv' update_conv'
          split: option.splits list.splits if_splits)
    then show ?thesis using low by (auto simp: lfu_lowest_def)
  qed
  have set: "lfu_minFreq (lfu_set now key value opt s) = 1 \<and>
     map_of (lfu_freqMap (lfu_set now key value opt s)) =
       (map_of (lfu_freqMap s1))(1 \<mapsto> set_add key (case map_of (lfu_freqMap s1) 1 of None \<Rightarrow> [] | Some ks \<Rightarrow> ks))"
    using None unfolding lfu_set_def Let_def s1_def
    by (cases "map_of (lfu_freqMap (if lfu_capacity s \<le> lfu_size s then lfu_evict s else s)) 1")
       (simp_all add: update_conv' set_add_def)
  show ?thesis
    unfolding lfu_lowest_def using set one by (auto split: if_splits)
qed

lemma lfu_evicted_has_lowest_frequency:
  assumes wf: "lfu_wf s" and low: "lfu_lowest s"
    and b: "map_of (lfu_freqMap s) (lfu_minFreq s) = Some (k # ks)"
    and n: "map_of (lfu_cache s) k = Some node"
    and n': "map_of (lfu_cache s) k' = Some node'"
  shows "f_freq node = lfu_minFreq s \<and> f_freq node \<le> f_freq node'"
proof -
  from wf b have "\<exists>m. map_of (lfu_cache s) k = Some m \<and> f_freq m = lfu_minFreq s"
    unfolding lfu_wf_def lfu_core_def by (metis list.set_intros(1))
  then have 1: "f_freq node = lfu_minFreq s" using n by auto
  from wf n' obtain js where "map_of (lfu_freqMap s) (f_freq node') = Some js"
    unfolding lfu_wf_def lfu_core_def by blast
  then have "lfu_minFreq s \<le> f_freq node'" using low by (auto simp: lfu_lowest_def)
  then show ?thesis using 1 by simp
qed

section \<open>The statements of the specification\<close>

lemmas lfu_unfold = LFUCache_def lfu_set_def lfu_get_def lfu_peek_def lfu_getOrDeleteIfExpired_def
  lfu_deleteIfExpired_def lfu_updateFrequency_def lfu_evict_def lfu_delete_def lfu_has_def
  lfu_clear_def lfu_resize_def lfu_entriesAscendingInternal_def lfu_emitEvictions_def
  lfu_maxSizeValue_def

lemmas lru_unfold = LRUCache_def lru_set_def lru_get_def lru_peek_def lru_getOrDeleteIfExpired_def
  lru_deleteIfExpired_def lru_moveToHead_def lru_delete_def lru_has_def
  lru_clear_def lru_resize_def lru_entriesAscendingInternal_def lru_emitEvictions_def
  lru_maxSizeValue_def

lemmas shared_unfold = opts_def maxAge_or_infinity_def entry_maxAge_def expiry_of_def
  is_expired_def MAX_SAFE_INTEGER_def set_add_def set_delete_def new_Map_def Let_def

subsection \<open>C1: the size bound under \<^verbatim>\<open>set\<close>\<close>

text \<open>
  C1. For a cache of either policy constructed with a capacity \<open>C > 0\<close>, every finite
  sequence of \<^verbatim>\<open>set\<close> calls applied to the fresh cache runs without an exception, and
  \<^verbatim>\<open>size \<le> C\<close> holds in the state after each call.
\<close>

theorem set_keeps_size_within_capacity:
  assumes "0 < maxSize options"
  shows "(\<exists>ss. lru_sets cs (LRUCache options) = Inr ss \<and> length ss = length cs \<and>
            (\<forall>s\<in>set ss. lru_size s \<le> maxSize options)) \<and>
         (\<forall>s\<in>set (lfu_sets cs' (LFUCache options)). lfu_size s \<le> maxSize options)"
proof -
  have lru0: "lru_wf (LRUCache options :: ('a, 'b) lru_state) []" by (rule lru_wf_fresh)
  have "0 < lru_capacity (LRUCache options :: ('a, 'b) lru_state)"
    "lru_size (LRUCache options :: ('a, 'b) lru_state) \<le> lru_capacity (LRUCache options :: ('a, 'b) lru_state)"
    using assms by (simp_all add: LRUCache_def)
  from lru_sets_bound[OF lru0 this, of cs]
  have 1: "\<exists>ss. lru_sets cs (LRUCache options) = Inr ss \<and> length ss = length cs \<and>
            (\<forall>s\<in>set ss. lru_size s \<le> maxSize options)"
    by (simp add: LRUCache_def)
  have lfu0: "lfu_wf (LFUCache options :: ('c, 'd) lfu_state)" by (rule lfu_wf_fresh)
  have "0 < lfu_capacity (LFUCache options :: ('c, 'd) lfu_state)"
    "lfu_size (LFUCache options :: ('c, 'd) lfu_state) \<le> lfu_capacity (LFUCache options :: ('c, 'd) lfu_state)"
    using assms by (simp_all add: LFUCache_def)
  from lfu_sets_bound[OF lfu0 this, of cs']
  have 2: "\<forall>s\<in>set (lfu_sets cs' (LFUCache options)). lfu_size s \<le> maxSize options"
    by (simp add: LFUCache_def)
  from 1 2 show ?thesis by blast
qed

theorem set_keeps_size_within_capacity_witness:
  "0 < maxSize (opts 3) \<and>
   (\<exists>ss. lru_sets set_abcd (LRUCache (opts 3)) = Inr ss \<and> length ss = length set_abcd \<and>
          list_all (\<lambda>s. lru_size s \<le> maxSize (opts 3)) ss) \<and>
   list_all (\<lambda>s. lfu_size s \<le> maxSize (opts 3)) (lfu_sets set_abcd (LFUCache (opts 3)))"
proof -
  have h: "0 < maxSize (opts 3)" by (simp add: opts_def)
  show ?thesis
    using h set_keeps_size_within_capacity[OF h, of set_abcd set_abcd]
    unfolding list_all_iff by blast
qed

subsection \<open>C2: LRU eviction\<close>

lemma lru_abc_eq:
  "lru_abc =
     \<lparr>lru_heap =
        [\<lparr>n_key = ''a'', n_val = 1, n_prev = Some 1, n_next = None, n_expiry = None\<rparr>,
         \<lparr>n_key = ''b'', n_val = 2, n_prev = Some 2, n_next = Some 0, n_expiry = None\<rparr>,
         \<lparr>n_key = ''c'', n_val = 3, n_prev = None, n_next = Some 1, n_expiry = None\<rparr>],
      lru_capacity = 3, lru_cache = [(''a'', 0), (''b'', 1), (''c'', 2)],
      lru_head = Some 2, lru_tail = Some 0, lru_size = 3, lru_maxAge = PosInf,
      lru_onEviction = True, lru_calls = []\<rparr>"
  by (simp add: lru_abc_def lru_unfold shared_unfold)

text \<open>
  Eviction on a state whose recency list is \<open>as\<close> (most recently touched first) and whose
  index holds exactly these nodes, which is every state reached without \<^verbatim>\<open>resize\<close>
  (lemma \<open>lru_run_wf\<close>): a \<^verbatim>\<open>set\<close> of a new key that makes \<^verbatim>\<open>size\<close> exceed
  \<^verbatim>\<open>capacity\<close> succeeds and evicts exactly the tail \<open>last as\<close>. The new list is the new
  node followed by \<open>as\<close> without its last node, the index gains the new key and loses the
  tail's key and nothing else, \<^verbatim>\<open>size\<close> is incremented and decremented once, and
  \<^verbatim>\<open>onEviction\<close> (when installed) is called once, with the tail's key and value. With
  capacity 3 and no expiry, after \<^verbatim>\<open>set(a,1); set(b,2); set(c,3); set(d,4)\<close> the calls
  \<^verbatim>\<open>get(a)\<close>, \<^verbatim>\<open>get(b)\<close>, \<^verbatim>\<open>get(c)\<close>, \<^verbatim>\<open>get(d)\<close> return absent, 2, 3, 4, and
  \<^verbatim>\<open>onEviction\<close> was called exactly once, with \<open>(a, 1)\<close>.
\<close>

lemma lru_overflow_on_wf:
  "(lru_wf s as \<and> map_of (lru_cache s) key = None \<and> 0 < lru_capacity s \<and>
    lru_capacity s < lru_size s + 1 \<longrightarrow>
      lru_tail s = Some (last as) \<and>
      (\<exists>s'. lru_set now key value opt s = Inr s' \<and>
         lru_wf s' (length (lru_heap s) # butlast as) \<and>
         last as \<notin> set (length (lru_heap s) # butlast as) \<and>
         lru_size s' = lru_size s + 1 - 1 \<and>
         map_of (lru_cache s') =
           (map_of (lru_cache s))(key \<mapsto> length (lru_heap s),
                                  n_key (lru_heap s ! last as) := None) \<and>
         lru_calls s' =
           (if lru_onEviction s
            then lru_calls s @ [(n_key (lru_heap s ! last as), n_val (lru_heap s ! last as))]
            else lru_calls s))) \<and>
   (\<exists>s'. lru_run [Call_set 0 ''a'' (1 :: int) None, Call_set 0 ''b'' 2 None,
                  Call_set 0 ''c'' 3 None, Call_set 0 ''d'' 4 None] (LRUCache (opts 3)) = Inr s' \<and>
         lru_gets [(0, ''a''), (0, ''b''), (0, ''c''), (0, ''d'')] s' =
           [None, Some 2, Some 3, Some 4] \<and>
         lru_calls s' = [(''a'', 1)])"
proof -
  have general: "lru_tail s = Some (last as) \<and>
      (\<exists>s'. lru_set now key value opt s = Inr s' \<and>
         lru_wf s' (length (lru_heap s) # butlast as) \<and>
         last as \<notin> set (length (lru_heap s) # butlast as) \<and>
         lru_size s' = lru_size s + 1 - 1 \<and>
         map_of (lru_cache s') =
           (map_of (lru_cache s))(key \<mapsto> length (lru_heap s),
                                  n_key (lru_heap s ! last as) := None) \<and>
         lru_calls s' =
           (if lru_onEviction s
            then lru_calls s @ [(n_key (lru_heap s ! last as), n_val (lru_heap s ! last as))]
            else lru_calls s))"
    if wf: "lru_wf s as" and k: "map_of (lru_cache s) key = None" and cap: "0 < lru_capacity s"
      and full: "lru_capacity s < lru_size s + 1"
  proof -
    have ne: "as \<noteq> []" using full cap lru_wf_size[OF wf] by auto
    have tl: "lru_tail s = Some (last as)" using wf ne by (simp add: lru_wf_alt last_or_def)
    have lt: "last as < length (lru_heap s)"
      using wf ne seg_bound[of "lru_heap s" None as None "last as"] by (simp add: lru_wf_alt)
    have "distinct as" using wf by (simp add: lru_wf_alt)
    then have "distinct (butlast as @ [last as])" using ne by simp
    then have nb: "last as \<notin> set (butlast as)" by simp
    from lru_set_new_full_wf[OF wf k full cap, of now "value" opt]
    obtain s' where s': "lru_set now key value opt s = Inr s'"
      "lru_wf s' (length (lru_heap s) # butlast as)" "lru_size s' = lru_size s"
      "lru_cache s' = AList.delete (n_key (lru_heap s ! last as))
                            (AList.update key (length (lru_heap s)) (lru_cache s))"
      "lru_calls s' =
             (if lru_onEviction s
              then lru_calls s @ [(n_key (lru_heap s ! last as), n_val (lru_heap s ! last as))]
              else lru_calls s)" by blast
    have m: "map_of (lru_cache s') =
           (map_of (lru_cache s))(key \<mapsto> length (lru_heap s),
                                  n_key (lru_heap s ! last as) := None)"
      by (simp add: s'(4) delete_conv' update_conv')
    show ?thesis using tl s'(1,2,3,5) m nb lt by auto
  qed
  have concrete: "\<exists>s'. lru_run [Call_set 0 ''a'' (1 :: int) None, Call_set 0 ''b'' 2 None,
                  Call_set 0 ''c'' 3 None, Call_set 0 ''d'' 4 None] (LRUCache (opts 3)) = Inr s' \<and>
         lru_gets [(0, ''a''), (0, ''b''), (0, ''c''), (0, ''d'')] s' =
           [None, Some 2, Some 3, Some 4] \<and>
         lru_calls s' = [(''a'', 1)]"
    by (simp add: lru_unfold shared_unfold)
  from general concrete show ?thesis by blast
qed

lemma lru_overflow_on_wf_instance:
  "(lru_wf lru_abc [2, 1, 0] \<and> map_of (lru_cache lru_abc) ''d'' = None \<and>
    0 < lru_capacity lru_abc \<and> lru_capacity lru_abc < lru_size lru_abc + 1) \<and>
   lru_tail lru_abc = Some 0 \<and> n_key (lru_heap lru_abc ! 0) = ''a'' \<and>
   (\<exists>s'. lru_set 0 ''d'' 4 None lru_abc = Inr s' \<and> lru_wf s' [3, 2, 1] \<and>
         lru_size s' = 3 \<and> map_of (lru_cache s') ''a'' = None \<and>
         map_of (lru_cache s') ''d'' = Some 3 \<and> lru_calls s' = [(''a'', 1)])"
proof -
  have h: "lru_wf lru_abc [2, 1, 0] \<and> map_of (lru_cache lru_abc) ''d'' = None \<and>
    0 < lru_capacity lru_abc \<and> lru_capacity lru_abc < lru_size lru_abc + 1"
    by (simp add: lru_abc_eq lru_wf_def last_or_def first_or_def)
  have v: "length (lru_heap lru_abc) = 3" "last [2, 1, 0 :: nat] = 0"
    "n_key (lru_heap lru_abc ! 0) = ''a''" "n_val (lru_heap lru_abc ! 0) = 1"
    "lru_size lru_abc = 3" "lru_onEviction lru_abc" "lru_calls lru_abc = []"
    by (simp_all add: lru_abc_eq)
  from lru_overflow_on_wf[of lru_abc "[2, 1, 0]" "''d''" 0 4 None, THEN conjunct1] h
  have "lru_tail lru_abc = Some (last [2, 1, 0]) \<and>
      (\<exists>s'. lru_set 0 ''d'' 4 None lru_abc = Inr s' \<and>
         lru_wf s' (length (lru_heap lru_abc) # butlast [2, 1, 0]) \<and>
         last [2, 1, 0] \<notin> set (length (lru_heap lru_abc) # butlast [2, 1, 0]) \<and>
         lru_size s' = lru_size lru_abc + 1 - 1 \<and>
         map_of (lru_cache s') =
           (map_of (lru_cache lru_abc))(''d'' \<mapsto> length (lru_heap lru_abc),
                                  n_key (lru_heap lru_abc ! last [2, 1, 0]) := None) \<and>
         lru_calls s' =
           (if lru_onEviction lru_abc
            then lru_calls lru_abc @ [(n_key (lru_heap lru_abc ! last [2, 1, 0]),
                                       n_val (lru_heap lru_abc ! last [2, 1, 0]))]
            else lru_calls lru_abc))"
    by blast
  then have "lru_tail lru_abc = Some 0 \<and>
      (\<exists>s'. lru_set 0 ''d'' 4 None lru_abc = Inr s' \<and> lru_wf s' [3, 2, 1] \<and>
         lru_size s' = 3 \<and> map_of (lru_cache s') ''a'' = None \<and>
         map_of (lru_cache s') ''d'' = Some 3 \<and> lru_calls s' = [(''a'', 1)])"
    unfolding v(1-5,7) using v(6) by auto
  then show ?thesis using h v(3) by blast
qed

text \<open>
  C2 says that whenever a \<^verbatim>\<open>set\<close> of a new key makes \<^verbatim>\<open>size\<close> exceed \<^verbatim>\<open>capacity\<close>,
  the least recently touched entry is removed from the index and reported to
  \<^verbatim>\<open>onEviction\<close>. After a \<^verbatim>\<open>resize\<close> that dropped entries this fails, since
  \<^verbatim>\<open>LRUCache.resize\<close> leaves the dropped nodes in the list. After
  \<^verbatim>\<open>set(a,1); set(b,2); set(c,3); resize(2); set(d,4)\<close> the cache holds \<open>b, c, d\<close> with
  \<^verbatim>\<open>size\<close> 3 and capacity 3, and the tail of the list is the node of \<open>a\<close>, which is not
  indexed: the overflowing \<^verbatim>\<open>set(e,5)\<close> removes no entry, leaves four entries indexed
  with \<^verbatim>\<open>size\<close> 3, and calls \<^verbatim>\<open>onEviction(a,1)\<close>. After
  \<^verbatim>\<open>set(a,1); set(b,2); set(c,3); resize(2); set(a,9)\<close> the tail is the old node of
  \<open>a\<close>: the overflowing \<^verbatim>\<open>set(d,4)\<close> removes the entry \<open>a\<close> written last, whose value is
  9, keeps the least recently touched \<open>b\<close>, and calls \<^verbatim>\<open>onEviction(a,1)\<close>.
\<close>

theorem lru_overflow_after_resize_evicts_stale_tail:
  "(\<exists>s. lru_run [Call_set 0 ''a'' (1 :: int) None, Call_set 0 ''b'' 2 None, Call_set 0 ''c'' 3 None,
                 Call_resize 0 2, Call_set 0 ''d'' 4 None] (LRUCache (opts 3)) = Inr s \<and>
        map fst (lru_cache s) = [''b'', ''c'', ''d''] \<and> lru_size s = 3 \<and> lru_capacity s = 3 \<and>
        lru_list_keys s = [''d'', ''c'', ''b'', ''a''] \<and>
        lru_tail s = Some 0 \<and> n_key (lru_heap s ! 0) = ''a'' \<and> \<not> lru_has ''a'' s \<and>
        lru_calls s = [(''a'', 1)] \<and>
        (\<exists>s'. lru_set 0 ''e'' 5 None s = Inr s' \<and>
              map fst (lru_cache s') = [''b'', ''c'', ''d'', ''e''] \<and> lru_size s' = 3 \<and>
              lru_calls s' = [(''a'', 1), (''a'', 1)])) \<and>
   (\<exists>s. lru_run [Call_set 0 ''a'' (1 :: int) None, Call_set 0 ''b'' 2 None, Call_set 0 ''c'' 3 None,
                 Call_resize 0 2, Call_set 0 ''a'' 9 None] (LRUCache (opts 3)) = Inr s \<and>
        map fst (lru_cache s) = [''b'', ''c'', ''a''] \<and> lru_size s = 3 \<and> lru_capacity s = 3 \<and>
        lru_list_keys s = [''a'', ''c'', ''b'', ''a''] \<and>
        lru_tail s = Some 0 \<and> map_of (lru_cache s) ''a'' = Some 3 \<and>
        n_val (lru_heap s ! 3) = 9 \<and> n_val (lru_heap s ! 0) = 1 \<and>
        lru_calls s = [(''a'', 1)] \<and>
        (\<exists>s'. lru_set 0 ''d'' 4 None s = Inr s' \<and>
              map fst (lru_cache s') = [''b'', ''c'', ''d''] \<and> lru_size s' = 3 \<and>
              lru_calls s' = [(''a'', 1), (''a'', 1)] \<and>
              lru_gets [(0, ''a''), (0, ''b'')] s' = [None, Some 2]))"
  by (simp add: lru_unfold shared_unfold lru_list_keys_def lru_list_def numeral_3_eq_3)

subsection \<open>C3: LFU eviction\<close>

lemma lfu_abc_used_eq:
  "lfu_abc_used =
     \<lparr>lfu_capacity = 3,
      lfu_cache =
        [(''a'', \<lparr>f_key = ''a'', f_val = 1, f_freq = 3, f_expiry = None\<rparr>),
         (''b'', \<lparr>f_key = ''b'', f_val = 2, f_freq = 2, f_expiry = None\<rparr>),
         (''c'', \<lparr>f_key = ''c'', f_val = 3, f_freq = 1, f_expiry = None\<rparr>)],
      lfu_freqMap = [(1, [''c'']), (3, [''a'']), (2, [''b''])],
      lfu_minFreq = 1, lfu_size = 3, lfu_maxAge = PosInf,
      lfu_onEviction = True, lfu_calls = []\<rparr>"
  by (simp add: lfu_abc_used_def lfu_unfold shared_unfold)

lemma lfu_abc_used_wf: "lfu_wf lfu_abc_used \<and> lfu_lowest lfu_abc_used"
  unfolding lfu_wf_def lfu_core_def lfu_lowest_def lfu_abc_used_eq
  by (auto split: if_splits)

text \<open>
  Eviction on a state at capacity whose bucket at \<^verbatim>\<open>minFreq\<close> is \<open>k # ks\<close> in insertion
  order and whose index holds \<open>k\<close>: \<^verbatim>\<open>evict\<close> removes \<open>k\<close>, the first key of that
  bucket, from the bucket and from the index, decrements \<^verbatim>\<open>size\<close> and calls
  \<^verbatim>\<open>onEviction\<close> (when installed) with \<open>k\<close> and its value; a \<^verbatim>\<open>set\<close> of a new key
  does exactly this eviction before it inserts. When the buckets are in step with the
  index and none lies below \<^verbatim>\<open>minFreq\<close>, no indexed entry has a lower frequency than
  \<open>k\<close>. With capacity 3 and no expiry, after
  \<^verbatim>\<open>set(a,1); set(b,2); set(c,3); get(a); get(a); get(b); set(d,4)\<close> the
  entry \<open>c\<close> has been evicted and \<open>a\<close>, \<open>b\<close>, \<open>d\<close> are retrievable.
\<close>

lemma lfu_evict_indexed_victim:
  "(map_of (lfu_cache s) key = None \<and> lfu_capacity s \<le> lfu_size s \<and>
    map_of (lfu_freqMap s) (lfu_minFreq s) = Some (k # ks) \<and>
    map_of (lfu_cache s) k = Some node \<longrightarrow>
      map_of (lfu_cache (lfu_evict s)) = (map_of (lfu_cache s))(k := None) \<and>
      map_of (lfu_freqMap (lfu_evict s)) (lfu_minFreq s) =
        (if removeAll k ks = [] then None else Some (removeAll k ks)) \<and>
      lfu_size (lfu_evict s) = lfu_size s - 1 \<and>
      lfu_calls (lfu_evict s) =
        (if lfu_onEviction s then lfu_calls s @ [(k, f_val node)] else lfu_calls s) \<and>
      map_of (lfu_cache (lfu_set now key value opt s)) =
        (map_of (lfu_cache s))
          (k := None,
           key \<mapsto> \<lparr>f_key = key, f_val = value, f_freq = 1,
                    f_expiry = expiry_of now (entry_maxAge opt (lfu_maxAge s))\<rparr>) \<and>
      lfu_size (lfu_set now key value opt s) = lfu_size s - 1 + 1 \<and>
      lfu_calls (lfu_set now key value opt s) =
        (if lfu_onEviction s then lfu_calls s @ [(k, f_val node)] else lfu_calls s)) \<and>
   (lfu_wf s \<and> lfu_lowest s \<and>
    map_of (lfu_freqMap s) (lfu_minFreq s) = Some (k # ks) \<and>
    map_of (lfu_cache s) k = Some node \<and> map_of (lfu_cache s) k' = Some node' \<longrightarrow>
      f_freq node \<le> f_freq node') \<and>
   (\<exists>s'. lfu_run [Call_set 0 ''a'' (1 :: int) None, Call_set 0 ''b'' 2 None,
                  Call_set 0 ''c'' 3 None, Call_get 0 ''a'', Call_get 0 ''a'', Call_get 0 ''b'',
                  Call_set 0 ''d'' 4 None] (LFUCache (opts 3)) = Inr s' \<and>
         lfu_calls s' = [(''c'', 3)] \<and> \<not> lfu_has ''c'' s' \<and>
         lfu_gets [(0, ''a''), (0, ''b''), (0, ''c''), (0, ''d'')] s' =
           [Some 1, Some 2, None, Some 4])"
proof -
  have general:
     "map_of (lfu_cache (lfu_evict s)) = (map_of (lfu_cache s))(k := None) \<and>
      map_of (lfu_freqMap (lfu_evict s)) (lfu_minFreq s) =
        (if removeAll k ks = [] then None else Some (removeAll k ks)) \<and>
      lfu_size (lfu_evict s) = lfu_size s - 1 \<and>
      lfu_calls (lfu_evict s) =
        (if lfu_onEviction s then lfu_calls s @ [(k, f_val node)] else lfu_calls s) \<and>
      map_of (lfu_cache (lfu_set now key value opt s)) =
        (map_of (lfu_cache s))
          (k := None,
           key \<mapsto> \<lparr>f_key = key, f_val = value, f_freq = 1,
                    f_expiry = expiry_of now (entry_maxAge opt (lfu_maxAge s))\<rparr>) \<and>
      lfu_size (lfu_set now key value opt s) = lfu_size s - 1 + 1 \<and>
      lfu_calls (lfu_set now key value opt s) =
        (if lfu_onEviction s then lfu_calls s @ [(k, f_val node)] else lfu_calls s)"
    if nk: "map_of (lfu_cache s) key = None" and full: "lfu_capacity s \<le> lfu_size s"
      and b: "map_of (lfu_freqMap s) (lfu_minFreq s) = Some (k # ks)"
      and n: "map_of (lfu_cache s) k = Some node"
  proof -
    define fm where "fm = (if removeAll k ks = [] then AList.delete (lfu_minFreq s) (lfu_freqMap s)
                           else AList.update (lfu_minFreq s) (removeAll k ks) (lfu_freqMap s))"
    have ev: "lfu_evict s = s\<lparr>lfu_freqMap := fm,
                               lfu_cache := AList.delete k (lfu_cache s),
                               lfu_size := lfu_size s - 1,
                               lfu_calls := (if lfu_onEviction s
                                             then lfu_calls s @ [(k, f_val node)]
                                             else lfu_calls s)\<rparr>"
      using b n by (simp add: lfu_evict_def Let_def set_delete_def fm_def)
    have e1: "map_of (lfu_cache (lfu_evict s)) = (map_of (lfu_cache s))(k := None)"
      by (simp add: ev delete_conv')
    have e2: "map_of (lfu_freqMap (lfu_evict s)) (lfu_minFreq s) =
        (if removeAll k ks = [] then None else Some (removeAll k ks))"
      by (simp add: ev fm_def delete_conv' update_conv')
    have e3: "lfu_size (lfu_evict s) = lfu_size s - 1"
      and e4: "lfu_calls (lfu_evict s) =
        (if lfu_onEviction s then lfu_calls s @ [(k, f_val node)] else lfu_calls s)"
      and e5: "lfu_maxAge (lfu_evict s) = lfu_maxAge s"
      by (simp_all add: ev)
    have s: "lfu_set now key value opt s =
        (lfu_evict s)\<lparr>lfu_cache := AList.update key
               \<lparr>f_key = key, f_val = value, f_freq = 1,
                f_expiry = expiry_of now (entry_maxAge opt (lfu_maxAge s))\<rparr> (lfu_cache (lfu_evict s)),
             lfu_freqMap :=
               (case map_of (lfu_freqMap (lfu_evict s)) 1 of
                  None \<Rightarrow> AList.update 1 [key] (lfu_freqMap (lfu_evict s))
                | Some ks \<Rightarrow> AList.update 1 (set_add key ks) (lfu_freqMap (lfu_evict s))),
             lfu_minFreq := 1,
             lfu_size := lfu_size (lfu_evict s) + 1\<rparr>"
      using nk full unfolding lfu_set_def Let_def by simp
    have s1: "map_of (lfu_cache (lfu_set now key value opt s)) =
        (map_of (lfu_cache s))
          (k := None,
           key \<mapsto> \<lparr>f_key = key, f_val = value, f_freq = 1,
                    f_expiry = expiry_of now (entry_maxAge opt (lfu_maxAge s))\<rparr>)"
      unfolding s by (simp add: update_conv' e1)
    have s2: "lfu_size (lfu_set now key value opt s) = lfu_size s - 1 + 1"
      unfolding s by (simp add: e3)
    have s3: "lfu_calls (lfu_set now key value opt s) =
        (if lfu_onEviction s then lfu_calls s @ [(k, f_val node)] else lfu_calls s)"
      unfolding s using e4 by simp
    from e1 e2 e3 e4 s1 s2 s3 show ?thesis by blast
  qed
  have concrete: "\<exists>s'. lfu_run [Call_set 0 ''a'' (1 :: int) None, Call_set 0 ''b'' 2 None,
                  Call_set 0 ''c'' 3 None, Call_get 0 ''a'', Call_get 0 ''a'', Call_get 0 ''b'',
                  Call_set 0 ''d'' 4 None] (LFUCache (opts 3)) = Inr s' \<and>
         lfu_calls s' = [(''c'', 3)] \<and> \<not> lfu_has ''c'' s' \<and>
         lfu_gets [(0, ''a''), (0, ''b''), (0, ''c''), (0, ''d'')] s' =
           [Some 1, Some 2, None, Some 4]"
    by (simp add: lfu_unfold shared_unfold)
  have lowest: "f_freq node \<le> f_freq node'"
    if "lfu_wf s" "lfu_lowest s" "map_of (lfu_freqMap s) (lfu_minFreq s) = Some (k # ks)"
      "map_of (lfu_cache s) k = Some node" "map_of (lfu_cache s) k' = Some node'"
    using lfu_evicted_has_lowest_frequency[OF that] by simp
  from general lowest concrete show ?thesis by blast
qed

lemma lfu_evict_indexed_victim_instance:
  "(map_of (lfu_cache lfu_abc_used) ''d'' = None \<and>
    lfu_capacity lfu_abc_used \<le> lfu_size lfu_abc_used \<and>
    map_of (lfu_freqMap lfu_abc_used) (lfu_minFreq lfu_abc_used) = Some [''c''] \<and>
    map_of (lfu_cache lfu_abc_used) ''c'' =
      Some \<lparr>f_key = ''c'', f_val = 3, f_freq = 1, f_expiry = None\<rparr>) \<and>
   (lfu_wf lfu_abc_used \<and> lfu_lowest lfu_abc_used \<and>
    map_of (lfu_cache lfu_abc_used) ''a'' =
      Some \<lparr>f_key = ''a'', f_val = 1, f_freq = 3, f_expiry = None\<rparr>) \<and>
   map_of (lfu_cache (lfu_evict lfu_abc_used)) ''c'' = None \<and>
   lfu_size (lfu_evict lfu_abc_used) = 2 \<and>
   lfu_calls (lfu_evict lfu_abc_used) = [(''c'', 3)] \<and>
   map_of (lfu_cache (lfu_set 0 ''d'' 4 None lfu_abc_used)) ''c'' = None \<and>
   lfu_size (lfu_set 0 ''d'' 4 None lfu_abc_used) = 3 \<and>
   lfu_calls (lfu_set 0 ''d'' 4 None lfu_abc_used) = [(''c'', 3)] \<and>
   f_freq \<lparr>f_key = ''c'', f_val = 3 :: int, f_freq = 1, f_expiry = None\<rparr>
     \<le> f_freq \<lparr>f_key = ''a'', f_val = 1 :: int, f_freq = 3, f_expiry = None\<rparr>"
proof -
  let ?c = "\<lparr>f_key = ''c'', f_val = 3 :: int, f_freq = 1, f_expiry = None\<rparr>"
  let ?a = "\<lparr>f_key = ''a'', f_val = 1 :: int, f_freq = 3, f_expiry = None\<rparr>"
  have h: "map_of (lfu_cache lfu_abc_used) ''d'' = None \<and>
    lfu_capacity lfu_abc_used \<le> lfu_size lfu_abc_used \<and>
    map_of (lfu_freqMap lfu_abc_used) (lfu_minFreq lfu_abc_used) = Some [''c''] \<and>
    map_of (lfu_cache lfu_abc_used) ''c'' = Some ?c"
    by (simp add: lfu_abc_used_eq)
  have h2: "lfu_wf lfu_abc_used \<and> lfu_lowest lfu_abc_used \<and>
    map_of (lfu_cache lfu_abc_used) ''a'' = Some ?a"
    using lfu_abc_used_wf by (simp add: lfu_abc_used_eq)
  have v: "lfu_size lfu_abc_used = 3" "lfu_onEviction lfu_abc_used" "lfu_calls lfu_abc_used = []"
    by (simp_all add: lfu_abc_used_eq)
  note T = lfu_evict_indexed_victim[of lfu_abc_used "''d''" "''c''" "[]" ?c 0 4 None
      "''a''" ?a]
  from T[THEN conjunct1] h
  have "map_of (lfu_cache (lfu_evict lfu_abc_used)) = (map_of (lfu_cache lfu_abc_used))(''c'' := None) \<and>
      lfu_size (lfu_evict lfu_abc_used) = lfu_size lfu_abc_used - 1 \<and>
      lfu_calls (lfu_evict lfu_abc_used) =
        (if lfu_onEviction lfu_abc_used then lfu_calls lfu_abc_used @ [(''c'', 3)]
         else lfu_calls lfu_abc_used) \<and>
      map_of (lfu_cache (lfu_set 0 ''d'' 4 None lfu_abc_used)) =
        (map_of (lfu_cache lfu_abc_used))
          (''c'' := None,
           ''d'' \<mapsto> \<lparr>f_key = ''d'', f_val = 4, f_freq = 1,
                    f_expiry = expiry_of 0 (entry_maxAge None (lfu_maxAge lfu_abc_used))\<rparr>) \<and>
      lfu_size (lfu_set 0 ''d'' 4 None lfu_abc_used) = lfu_size lfu_abc_used - 1 + 1 \<and>
      lfu_calls (lfu_set 0 ''d'' 4 None lfu_abc_used) =
        (if lfu_onEviction lfu_abc_used then lfu_calls lfu_abc_used @ [(''c'', 3)]
         else lfu_calls lfu_abc_used)"
    by simp
  then have e: "map_of (lfu_cache (lfu_evict lfu_abc_used)) ''c'' = None \<and>
   lfu_size (lfu_evict lfu_abc_used) = 2 \<and>
   lfu_calls (lfu_evict lfu_abc_used) = [(''c'', 3)] \<and>
   map_of (lfu_cache (lfu_set 0 ''d'' 4 None lfu_abc_used)) ''c'' = None \<and>
   lfu_size (lfu_set 0 ''d'' 4 None lfu_abc_used) = 3 \<and>
   lfu_calls (lfu_set 0 ''d'' 4 None lfu_abc_used) = [(''c'', 3)]"
    unfolding v(1,3) using v(2) by simp
  from T[THEN conjunct2, THEN conjunct1] h h2
  have l: "f_freq ?c \<le> f_freq ?a" by blast
  from h h2 e l show ?thesis by blast
qed

text \<open>
  C3 says that a \<^verbatim>\<open>set\<close> of a new key into a full LFU cache removes the first key of
  the bucket at \<^verbatim>\<open>minFreq\<close> from the index, decrements \<^verbatim>\<open>size\<close> and calls
  \<^verbatim>\<open>onEviction\<close>. After a \<^verbatim>\<open>resize\<close> that dropped entries this fails, since
  \<^verbatim>\<open>LFUCache.resize\<close> leaves the dropped keys in their buckets. After
  \<^verbatim>\<open>set(a,1); set(b,2); set(c,3); resize(2); set(d,4)\<close> the cache holds \<open>b, c, d\<close> with
  \<^verbatim>\<open>size\<close> 3 and capacity 3, and the bucket at \<^verbatim>\<open>minFreq\<close> is \<open>a, b, c, d\<close>, whose
  first key \<open>a\<close> is not indexed: \<^verbatim>\<open>set(e,5)\<close> takes \<open>a\<close> out of the bucket, removes
  no entry, calls \<^verbatim>\<open>onEviction\<close> for none, and leaves four entries with \<^verbatim>\<open>size\<close> 4
  in a cache whose capacity is 3.
\<close>

theorem lfu_overflow_after_resize_evicts_nothing:
  "\<exists>t. lfu_run [Call_set 0 ''a'' (1 :: int) None, Call_set 0 ''b'' 2 None, Call_set 0 ''c'' 3 None,
                Call_resize 0 2, Call_set 0 ''d'' 4 None] (LFUCache (opts 3)) = Inr t \<and>
       map fst (lfu_cache t) = [''b'', ''c'', ''d''] \<and> lfu_size t = 3 \<and> lfu_capacity t = 3 \<and>
       lfu_minFreq t = 1 \<and> lfu_freqMap t = [(1, [''a'', ''b'', ''c'', ''d''])] \<and>
       lfu_victim t = Some ''a'' \<and> \<not> lfu_has ''a'' t \<and> lfu_calls t = [(''a'', 1)] \<and>
       map fst (lfu_cache (lfu_set 0 ''e'' 5 None t)) = [''b'', ''c'', ''d'', ''e''] \<and>
       lfu_freqMap (lfu_set 0 ''e'' 5 None t) = [(1, [''b'', ''c'', ''d'', ''e''])] \<and>
       lfu_size (lfu_set 0 ''e'' 5 None t) = 4 \<and>
       lfu_maxSizeValue (lfu_set 0 ''e'' 5 None t) = 3 \<and>
       lfu_calls (lfu_set 0 ''e'' 5 None t) = [(''a'', 1)]"
  by (simp add: lfu_unfold shared_unfold lfu_victim_def)

subsection \<open>C4: \<^verbatim>\<open>minFreq\<close> after \<^verbatim>\<open>delete\<close>\<close>

text \<open>
  C4 says that after every public operation of the LFU cache \<^verbatim>\<open>minFreq\<close> is the
  smallest frequency with a non-empty bucket, and 0 when the cache is empty.
  \<^verbatim>\<open>LFUCache.delete\<close> increments \<^verbatim>\<open>minFreq\<close> when the bucket it empties was the
  minimum, whatever the next non-empty bucket is. After \<^verbatim>\<open>set(a,1); delete(a)\<close> the
  cache is empty and \<^verbatim>\<open>minFreq\<close> is 2; after
  \<^verbatim>\<open>set(a,1); set(b,2); get(b); get(b); delete(a)\<close> the only bucket is that of frequency
  3 and \<^verbatim>\<open>minFreq\<close> is 2.
\<close>

theorem lfu_delete_leaves_stale_minFreq:
  "(\<exists>s. lfu_run [Call_set 0 ''a'' (1 :: int) None, Call_delete ''a''] (LFUCache (opts 3)) = Inr s \<and>
        lfu_cache s = [] \<and> lfu_size s = 0 \<and> lfu_minFreq s = 2) \<and>
   (\<exists>s. lfu_run [Call_set 0 ''a'' (1 :: int) None, Call_set 0 ''b'' 2 None, Call_get 0 ''b'',
                 Call_get 0 ''b'', Call_delete ''a''] (LFUCache (opts 3)) = Inr s \<and>
        lfu_freqMap s = [(3, [''b''])] \<and> true_minFreq s = Some 3 \<and> lfu_minFreq s = 2)"
  by (simp add: lfu_unfold shared_unfold true_minFreq_def)

subsection \<open>C5: overwriting \<^verbatim>\<open>set\<close> in the LRU cache\<close>

text \<open>
  C5 says that \<^verbatim>\<open>LRUCache.set\<close> on a present key replaces the entry's expiry.
  The branch for a present key writes the value and moves the node to the head; the
  expiry it computed is not stored. An entry without expiry overwritten with
  \<^verbatim>\<open>maxAge: 1000\<close> at 0 is still served at 5000; an entry written with
  \<^verbatim>\<open>maxAge: 1000\<close> at 0 and overwritten without expiry at 500 is gone at 1500.
  \<^verbatim>\<open>LFUCache.set\<close> stores the new expiry.
\<close>

theorem lru_overwrite_keeps_old_expiry:
  "(\<exists>s. lru_run [Call_set 0 ''a'' (1 :: int) None, Call_set 0 ''a'' 2 (Some (Fin 1000))]
          (LRUCache (opts 3)) = Inr s \<and>
        map_of (lru_cache s) ''a'' = Some 0 \<and> n_val (lru_heap s ! 0) = 2 \<and>
        n_expiry (lru_heap s ! 0) = None \<and> expiry_of 0 (Fin 1000) = Some 1000 \<and>
        fst (lru_get 5000 ''a'' s) = Some 2) \<and>
   (\<exists>s. lru_run [Call_set 0 ''a'' (1 :: int) (Some (Fin 1000)), Call_set 500 ''a'' 2 None]
          (LRUCache (opts 3)) = Inr s \<and>
        map_of (lru_cache s) ''a'' = Some 0 \<and> n_val (lru_heap s ! 0) = 2 \<and>
        n_expiry (lru_heap s ! 0) = Some 1000 \<and> expiry_of 500 PosInf = None \<and>
        fst (lru_get 1500 ''a'' s) = None) \<and>
   (\<exists>t. lfu_run [Call_set 0 ''a'' (1 :: int) None, Call_set 0 ''a'' 2 (Some (Fin 1000))]
          (LFUCache (opts 3)) = Inr t \<and>
        map (\<lambda>p. (f_val (snd p), f_expiry (snd p))) (lfu_cache t) = [(2, Some 1000)] \<and>
        fst (lfu_get 5000 ''a'' t) = None)"
  by (simp add: lru_unfold lfu_unfold shared_unfold)

subsection \<open>C6: \<^verbatim>\<open>peek\<close> and \<^verbatim>\<open>get\<close>\<close>

text \<open>
  C6. In both caches \<^verbatim>\<open>peek(key)\<close> returns what \<^verbatim>\<open>get(key)\<close> returns and leaves the
  cache in the state \<^verbatim>\<open>get(key)\<close> leaves it in, for every key, state and clock reading.
  It is not a read-only observation: on the capacity-3 scripts a \<^verbatim>\<open>peek\<close> of the least
  recently used key moves it to the head of the LRU list, and a \<^verbatim>\<open>peek\<close> raises the
  frequency of the LFU entry.
\<close>

theorem peek_is_get:
  "lru_peek now key s = lru_get now key s \<and> lfu_peek now key t = lfu_get now key t \<and>
   lru_list_keys lru_abc = [''c'', ''b'', ''a''] \<and>
   fst (lru_peek 0 ''a'' lru_abc) = Some 1 \<and>
   lru_list_keys (snd (lru_peek 0 ''a'' lru_abc)) = [''a'', ''c'', ''b''] \<and>
   map (\<lambda>p. (fst p, f_freq (snd p))) (lfu_cache lfu_abc_used) =
     [(''a'', 3), (''b'', 2), (''c'', 1)] \<and>
   fst (lfu_peek 0 ''c'' lfu_abc_used) = Some 3 \<and>
   map (\<lambda>p. (fst p, f_freq (snd p))) (lfu_cache (snd (lfu_peek 0 ''c'' lfu_abc_used))) =
     [(''a'', 3), (''b'', 2), (''c'', 2)]"
proof -
  have 1: "lru_peek now key s = lru_get now key s \<and> lfu_peek now key t = lfu_get now key t"
    by (simp add: lru_peek_def lru_get_def lfu_peek_def lfu_get_def)
  have 2: "lru_list_keys lru_abc = [''c'', ''b'', ''a''] \<and>
   fst (lru_peek 0 ''a'' lru_abc) = Some 1 \<and>
   lru_list_keys (snd (lru_peek 0 ''a'' lru_abc)) = [''a'', ''c'', ''b'']"
    by (simp add: lru_abc_eq lru_unfold shared_unfold lru_list_keys_def lru_list_def
        numeral_3_eq_3)
  have 3: "map (\<lambda>p. (fst p, f_freq (snd p))) (lfu_cache lfu_abc_used) =
     [(''a'', 3), (''b'', 2), (''c'', 1)] \<and>
   fst (lfu_peek 0 ''c'' lfu_abc_used) = Some 3 \<and>
   map (\<lambda>p. (fst p, f_freq (snd p))) (lfu_cache (snd (lfu_peek 0 ''c'' lfu_abc_used))) =
     [(''a'', 3), (''b'', 2), (''c'', 2)]"
    by (simp add: lfu_abc_used_eq lfu_unfold shared_unfold)
  from 1 2 3 show ?thesis by blast
qed

subsection \<open>C7: the recency list after \<^verbatim>\<open>resize\<close>\<close>

text \<open>
  C7 says that after every public operation of the LRU cache, \<^verbatim>\<open>resize\<close> included,
  the recency list holds exactly the indexed entries and the index has \<^verbatim>\<open>size\<close>
  entries. \<^verbatim>\<open>LRUCache.resize\<close> replaces the index and \<^verbatim>\<open>size\<close> and leaves
  \<^verbatim>\<open>head\<close>, \<^verbatim>\<open>tail\<close> and the links alone. After
  \<^verbatim>\<open>set(a,1); set(b,2); set(c,3); resize(2)\<close> the index holds \<open>b, c\<close> and the list is
  \<open>c, b, a\<close>; two more insertions then evict the unindexed \<open>a\<close> again, which leaves four
  indexed entries with \<^verbatim>\<open>size\<close> 3, over a capacity of 3.
\<close>

theorem lru_resize_leaves_list_stale:
  "\<exists>s. lru_run [Call_set 0 ''a'' (1 :: int) None, Call_set 0 ''b'' 2 None, Call_set 0 ''c'' 3 None,
                Call_resize 0 2] (LRUCache (opts 3)) = Inr s \<and>
       map fst (lru_cache s) = [''b'', ''c''] \<and> lru_size s = 2 \<and>
       lru_list_keys s = [''c'', ''b'', ''a''] \<and> lru_tail s = Some 0 \<and>
       (\<exists>s'. lru_run [Call_set 0 ''d'' 4 None, Call_set 0 ''e'' 5 None] s = Inr s' \<and>
             map fst (lru_cache s') = [''b'', ''c'', ''d'', ''e''] \<and> lru_size s' = 3 \<and>
             lru_calls s' = [(''a'', 1), (''a'', 1)])"
  by (simp add: lru_unfold shared_unfold lru_list_keys_def lru_list_def numeral_3_eq_3)

subsection \<open>C8: the capacity after \<^verbatim>\<open>resize\<close>\<close>

text \<open>
  C8 says that after \<^verbatim>\<open>resize(newCapacity)\<close> the capacity, as \<^verbatim>\<open>maxSizeValue\<close>
  reports it and as \<^verbatim>\<open>set\<close> uses it, is \<open>newCapacity\<close>. Neither \<^verbatim>\<open>resize\<close> assigns
  \<^verbatim>\<open>capacity\<close>: after \<^verbatim>\<open>set(a,1); set(b,2); set(c,3); resize(2)\<close> on a cache of
  capacity 3, \<^verbatim>\<open>maxSizeValue\<close> is 3 and \<^verbatim>\<open>set(d,4)\<close> brings \<^verbatim>\<open>size\<close> to 3
  without an eviction; after \<^verbatim>\<open>resize(5)\<close> on a fresh cache of capacity 3 the fourth
  insertion evicts.
\<close>

theorem resize_leaves_capacity_unchanged:
  "(\<exists>s. lru_run [Call_set 0 ''a'' (1 :: int) None, Call_set 0 ''b'' 2 None, Call_set 0 ''c'' 3 None,
                 Call_resize 0 2] (LRUCache (opts 3)) = Inr s \<and>
        lru_size s = 2 \<and> lru_maxSizeValue s = 3 \<and>
        (\<exists>s'. lru_run [Call_set 0 ''d'' 4 None] s = Inr s' \<and> lru_size s' = 3 \<and> lru_calls s' = [(''a'', 1)])) \<and>
   (\<exists>t. lfu_run [Call_set 0 ''a'' (1 :: int) None, Call_set 0 ''b'' 2 None, Call_set 0 ''c'' 3 None,
                 Call_resize 0 2] (LFUCache (opts 3)) = Inr t \<and>
        lfu_size t = 2 \<and> lfu_maxSizeValue t = 3 \<and>
        (\<exists>t'. lfu_run [Call_set 0 ''d'' 4 None] t = Inr t' \<and> lfu_size t' = 3 \<and> lfu_calls t' = [(''a'', 1)])) \<and>
   (\<exists>s. lru_run [Call_resize 0 5, Call_set 0 ''a'' (1 :: int) None, Call_set 0 ''b'' 2 None,
                 Call_set 0 ''c'' 3 None, Call_set 0 ''d'' 4 None] (LRUCache (opts 3)) = Inr s \<and>
        lru_maxSizeValue s = 3 \<and> lru_size s = 3 \<and> lru_calls s = [(''a'', 1)]) \<and>
   (\<exists>t. lfu_run [Call_resize 0 5, Call_set 0 ''a'' (1 :: int) None, Call_set 0 ''b'' 2 None,
                 Call_set 0 ''c'' 3 None, Call_set 0 ''d'' 4 None] (LFUCache (opts 3)) = Inr t \<and>
        lfu_maxSizeValue t = 3 \<and> lfu_size t = 3 \<and> lfu_calls t = [(''a'', 1)])"
  by (simp add: lru_unfold lfu_unfold shared_unfold)

subsection \<open>C9: lazy expiry\<close>

lemma lru_delete_present:
  assumes "map_of (lru_cache s) k = Some a"
  shows "fst (lru_delete k s) \<and> lru_size (snd (lru_delete k s)) = lru_size s - 1 \<and>
         map_of (lru_cache (snd (lru_delete k s))) k = None"
  using assms by (simp add: lru_delete_def Let_def delete_conv')

lemma lfu_delete_present:
  assumes "map_of (lfu_cache s) k = Some n"
  shows "fst (lfu_delete k s) \<and> lfu_size (snd (lfu_delete k s)) = lfu_size s - 1 \<and>
         map_of (lfu_cache (snd (lfu_delete k s))) k = None"
  using assms by (simp add: lfu_delete_def Let_def delete_conv')

lemma lru_set_other_keeps_entry:
  assumes k: "map_of (lru_cache s) k = Some a" and k2: "map_of (lru_cache s) k2 = None"
    and room: "lru_size s + 1 \<le> lru_capacity s"
  shows "\<exists>s'. lru_set now2 k2 v2 opt2 s = Inr s' \<and> map_of (lru_cache s') k = Some a \<and>
           lru_size s' = lru_size s + 1"
proof -
  have ne: "k \<noteq> k2" using k k2 by auto
  have set: "lru_set now2 k2 v2 opt2 s = Inr (lru_inserted now2 k2 v2 opt2 s)"
    using k2 room by (simp add: lru_set_eq lru_inserted_frame)
  have c: "map_of (lru_cache (lru_inserted now2 k2 v2 opt2 s)) k = Some a"
    using k ne by (simp add: lru_inserted_frame update_conv')
  show ?thesis using set c by (simp add: lru_inserted_frame)
qed

lemma lfu_set_other_keeps_entry:
  assumes k: "map_of (lfu_cache t) k = Some nd" and k2: "map_of (lfu_cache t) k2 = None"
    and room: "lfu_size t < lfu_capacity t"
  shows "map_of (lfu_cache (lfu_set now2 k2 v2 opt2 t)) k = Some nd \<and>
         lfu_size (lfu_set now2 k2 v2 opt2 t) = lfu_size t + 1"
proof -
  have ne: "k \<noteq> k2" using k k2 by auto
  show ?thesis using k k2 room ne by (simp add: lfu_set_def Let_def update_conv')
qed

lemma lru_inserted_key:
  assumes "t < length (lru_heap s)"
  shows "n_key (lru_heap (lru_inserted now k2 v2 opt2 s) ! t) = n_key (lru_heap s ! t)"
proof -
  let ?h0 = "lru_heap s @ [\<lparr>n_key = k2, n_val = v2, n_prev = None,
                  n_next = lru_head s, n_expiry = expiry_of now (entry_maxAge opt2 (lru_maxAge s))\<rparr>]"
  have "same_data (lru_heap (lru_inserted now k2 v2 opt2 s)) ?h0"
    by (cases "lru_head s") (simp_all add: lru_inserted_def Let_def same_data_links)
  moreover have "?h0 ! t = lru_heap s ! t" using assms by (simp add: nth_append)
  ultimately show ?thesis by (simp add: same_data_def)
qed

lemma lru_set_keeps_non_tail_entry:
  assumes k: "map_of (lru_cache s) k = Some a" and t: "lru_tail s = Some t"
    and tl: "t < length (lru_heap s)" and nk: "n_key (lru_heap s ! t) \<noteq> k"
    and r: "lru_set now k2 v2 opt2 s = Inr s'"
  shows "lru_has k s' \<and> lru_size s \<le> lru_size s'"
proof (cases "map_of (lru_cache s) k2")
  case (Some b)
  then have "s' = lru_moveToHead b
                 (s\<lparr>lru_heap := (lru_heap s)[b := (lru_heap s ! b)\<lparr>n_val := v2\<rparr>]\<rparr>)"
    using r by (simp add: lru_set_eq)
  then show ?thesis using k by (simp add: lru_moveToHead_frame lru_has_def)
next
  case None
  let ?s1 = "lru_inserted now k2 v2 opt2 s"
  have ne: "k \<noteq> k2" using k None by auto
  have c1: "map_of (lru_cache ?s1) k = Some a"
    using k ne by (simp add: lru_inserted_frame update_conv')
  show ?thesis
  proof (cases "lru_size ?s1 > lru_capacity ?s1")
    case False
    then have "s' = ?s1" using r None by (simp add: lru_set_eq)
    then show ?thesis using c1 by (simp add: lru_has_def lru_inserted_frame)
  next
    case True
    then have ev: "lru_evict_tail ?s1 = Inr s'" using r None by (simp add: lru_set_eq)
    have t1: "lru_tail ?s1 = Some t" using t by (simp add: lru_inserted_def Let_def)
    from ev t1 obtain p where p: "n_prev (lru_heap ?s1 ! t) = Some p"
      by (cases "n_prev (lru_heap ?s1 ! t)") (simp_all add: lru_evict_tail_def)
    have c: "lru_cache s' = AList.delete (n_key (lru_heap ?s1 ! t)) (lru_cache ?s1)"
      and z: "lru_size s' = lru_size ?s1 - 1"
      using ev t1 p by (auto simp: lru_evict_tail_def Let_def)
    have "n_key (lru_heap ?s1 ! t) \<noteq> k" using lru_inserted_key[OF tl] nk by simp
    then have "map_of (lru_cache s') k = Some a" using c c1 by simp
    then show ?thesis using z by (simp add: lru_has_def lru_inserted_frame)
  qed
qed

lemma lru_set_full_keeps_non_tail_entry:
  assumes wf: "lru_wf s as" and cap: "0 < lru_capacity s" and full: "lru_capacity s < lru_size s + 1"
    and k: "map_of (lru_cache s) k = Some a" and k2: "map_of (lru_cache s) k2 = None"
    and nk: "n_key (lru_heap s ! last as) \<noteq> k"
  shows "\<exists>s'. lru_set now k2 v2 opt2 s = Inr s' \<and> lru_has k s' \<and>
           \<not> lru_has (n_key (lru_heap s ! last as)) s' \<and> lru_size s' = lru_size s"
proof -
  have ne: "k \<noteq> k2" using k k2 by auto
  from lru_set_new_full_wf[OF wf k2 full cap, of now v2 opt2]
  obtain s' where s': "lru_set now k2 v2 opt2 s = Inr s'" "lru_size s' = lru_size s"
      "lru_cache s' = AList.delete (n_key (lru_heap s ! last as))
                            (AList.update k2 (length (lru_heap s)) (lru_cache s))"
    by blast
  have 1: "map_of (lru_cache s') k = Some a"
    using k ne nk by (simp add: s'(3) delete_conv' update_conv')
  have 2: "map_of (lru_cache s') (n_key (lru_heap s ! last as)) = None"
    by (simp add: s'(3) delete_conv')
  show ?thesis using s'(1,2) 1 2 by (simp add: lru_has_def)
qed

lemma lfu_victim_bucket:
  "lfu_victim t = Some v \<longleftrightarrow> (\<exists>vs. map_of (lfu_freqMap t) (lfu_minFreq t) = Some (v # vs))"
  by (auto simp: lfu_victim_def split: option.splits list.splits)

lemma lfu_evict_keeps_non_victim:
  assumes j: "map_of (lfu_cache t) j = Some nd" and nv: "lfu_victim t \<noteq> Some j"
  shows "map_of (lfu_cache (lfu_evict t)) j = Some nd \<and> lfu_size t - 1 \<le> lfu_size (lfu_evict t)"
proof (cases "map_of (lfu_freqMap t) (lfu_minFreq t)")
  case None
  then show ?thesis using j by (simp add: lfu_evict_def)
next
  case (Some keys)
  show ?thesis
  proof (cases keys)
    case Nil
    then show ?thesis using j Some by (simp add: lfu_evict_def)
  next
    case (Cons key rest)
    then have kj: "key \<noteq> j" using nv Some by (auto simp: lfu_victim_bucket)
    show ?thesis
    proof (cases "map_of (lfu_cache t) key")
      case None
      then show ?thesis using j Some Cons by (simp add: lfu_evict_def Let_def)
    next
      case (Some node)
      then show ?thesis using j \<open>map_of (lfu_freqMap t) (lfu_minFreq t) = Some keys\<close> Cons kj
        by (simp add: lfu_evict_def Let_def)
    qed
  qed
qed

lemma lfu_set_keeps_non_victim_entry:
  assumes j: "map_of (lfu_cache t) j = Some nd" and nv: "lfu_victim t \<noteq> Some j"
  shows "lfu_has j (lfu_set at j2 w2 o2 t) \<and> lfu_size t \<le> lfu_size (lfu_set at j2 w2 o2 t)"
proof (cases "map_of (lfu_cache t) j2")
  case (Some n)
  then show ?thesis using j
    by (simp add: lfu_set_def Let_def lfu_updateFrequency_maps lfu_has_def update_conv')
next
  case None
  have ne: "j \<noteq> j2" using j None by auto
  define s1 where "s1 = (if lfu_size t \<ge> lfu_capacity t then lfu_evict t else t)"
  have s1: "map_of (lfu_cache s1) j = Some nd \<and> lfu_size t - 1 \<le> lfu_size s1"
    using lfu_evict_keeps_non_victim[OF j nv] j by (simp add: s1_def)
  have c: "lfu_cache (lfu_set at j2 w2 o2 t) =
             AList.update j2 \<lparr>f_key = j2, f_val = w2, f_freq = 1,
                               f_expiry = expiry_of at (entry_maxAge o2 (lfu_maxAge t))\<rparr> (lfu_cache s1)"
    and z: "lfu_size (lfu_set at j2 w2 o2 t) = lfu_size s1 + 1"
    using None unfolding lfu_set_def Let_def s1_def by simp_all
  show ?thesis using s1 ne by (simp add: c z lfu_has_def update_conv')
qed

lemma lfu_set_full_evicts_victim:
  assumes j2: "map_of (lfu_cache t) j2 = None" and full: "lfu_capacity t \<le> lfu_size t"
    and v: "lfu_victim t = Some v" and vi: "map_of (lfu_cache t) v = Some nv"
  shows "map_of (lfu_cache (lfu_set at j2 w2 o2 t)) =
           (map_of (lfu_cache t))
             (v := None,
              j2 \<mapsto> \<lparr>f_key = j2, f_val = w2, f_freq = 1,
                      f_expiry = expiry_of at (entry_maxAge o2 (lfu_maxAge t))\<rparr>) \<and>
         lfu_size (lfu_set at j2 w2 o2 t) = lfu_size t"
proof -
  from v obtain vs where b: "map_of (lfu_freqMap t) (lfu_minFreq t) = Some (v # vs)"
    by (auto simp: lfu_victim_bucket)
  have e1: "lfu_cache (lfu_evict t) = AList.delete v (lfu_cache t)"
    and e2: "lfu_size (lfu_evict t) = lfu_size t - 1"
    and e3: "lfu_maxAge (lfu_evict t) = lfu_maxAge t"
    using b vi by (simp_all add: lfu_evict_def Let_def)
  have c: "lfu_cache (lfu_set at j2 w2 o2 t) =
             AList.update j2 \<lparr>f_key = j2, f_val = w2, f_freq = 1,
                               f_expiry = expiry_of at (entry_maxAge o2 (lfu_maxAge t))\<rparr>
               (lfu_cache (lfu_evict t))"
    and z: "lfu_size (lfu_set at j2 w2 o2 t) = lfu_size (lfu_evict t) + 1"
    using j2 full e3 unfolding lfu_set_def Let_def by simp_all
  show ?thesis by (simp add: c z e1 e2 update_conv' delete_conv')
qed

lemma ttl1_lru_eq:
  "ttl1_lru =
     \<lparr>lru_heap =
        [\<lparr>n_key = ''a'', n_val = 1, n_prev = None, n_next = None, n_expiry = Some 1000\<rparr>],
      lru_capacity = 2, lru_cache = [(''a'', 0)],
      lru_head = Some 0, lru_tail = Some 0, lru_size = 1, lru_maxAge = PosInf,
      lru_onEviction = True, lru_calls = []\<rparr>"
  by (simp add: ttl1_lru_def lru_unfold shared_unfold)

lemma ttl1_lfu_eq:
  "ttl1_lfu =
     \<lparr>lfu_capacity = 2,
      lfu_cache = [(''a'', \<lparr>f_key = ''a'', f_val = 1, f_freq = 1, f_expiry = Some 1000\<rparr>)],
      lfu_freqMap = [(1, [''a''])], lfu_minFreq = 1, lfu_size = 1,
      lfu_maxAge = PosInf, lfu_onEviction = True, lfu_calls = []\<rparr>"
  by (simp add: ttl1_lfu_def lfu_unfold shared_unfold)

lemma ttl_full_lru_eq:
  "ttl_full_lru =
     \<lparr>lru_heap =
        [\<lparr>n_key = ''a'', n_val = 1, n_prev = None, n_next = Some 1, n_expiry = Some 1000\<rparr>,
         \<lparr>n_key = ''b'', n_val = 2, n_prev = Some 0, n_next = None, n_expiry = None\<rparr>],
      lru_capacity = 2, lru_cache = [(''a'', 0), (''b'', 1)],
      lru_head = Some 0, lru_tail = Some 1, lru_size = 2, lru_maxAge = PosInf,
      lru_onEviction = True, lru_calls = []\<rparr>"
  by (simp add: ttl_full_lru_def lru_unfold shared_unfold)

lemma ttl_full_lfu_eq:
  "ttl_full_lfu =
     \<lparr>lfu_capacity = 2,
      lfu_cache =
        [(''a'', \<lparr>f_key = ''a'', f_val = 1, f_freq = 2, f_expiry = Some 1000\<rparr>),
         (''b'', \<lparr>f_key = ''b'', f_val = 2, f_freq = 1, f_expiry = None\<rparr>)],
      lfu_freqMap = [(1, [''b'']), (2, [''a''])], lfu_minFreq = 1, lfu_size = 2,
      lfu_maxAge = PosInf, lfu_onEviction = True, lfu_calls = []\<rparr>"
  by (simp add: ttl_full_lfu_def lfu_unfold shared_unfold)

lemma ttl_full_lru_wf: "lru_wf ttl_full_lru [0, 1]"
  by (simp add: ttl_full_lru_eq lru_wf_def last_or_def first_or_def)

text \<open>
  C9. In both caches an entry whose expiry is at or before the clock reading is still in
  the index and counted by \<^verbatim>\<open>size\<close>, and a \<^verbatim>\<open>get\<close> or \<^verbatim>\<open>peek\<close> of its key at
  that reading returns the absent value, removes the entry from the index and decrements
  \<^verbatim>\<open>size\<close>. Until then it holds its slot: a \<^verbatim>\<open>set\<close> of another key reads no expiry
  and no clock, so whatever the expiry of an indexed entry and whatever the clock reading,
  the entry stays indexed and \<^verbatim>\<open>size\<close> does not drop, unless the entry is the one the
  policy evicts (the tail of the LRU list, the first key of the LFU bucket at
  \<^verbatim>\<open>minFreq\<close>). When there is room both entries are counted; at capacity the entry the
  policy picks is evicted, expired or not, the other entry stays and \<^verbatim>\<open>size\<close> is
  unchanged. The instance of the spec: after \<^verbatim>\<open>set(a, 1, {maxAge: 1000})\<close> at 0,
  \<^verbatim>\<open>size\<close> is 1 at 1500 and \<^verbatim>\<open>get(a)\<close> at 1500 is absent and brings it to 0.
\<close>

theorem expired_entry_purged_on_touch:
  "(map_of (lru_cache s) k = Some a \<and> n_expiry (lru_heap s ! a) = Some e \<and> e \<le> now \<longrightarrow>
      lru_has k s \<and>
      fst (lru_get now k s) = None \<and> lru_size (snd (lru_get now k s)) = lru_size s - 1 \<and>
      \<not> lru_has k (snd (lru_get now k s)) \<and>
      fst (lru_peek now k s) = None \<and> lru_size (snd (lru_peek now k s)) = lru_size s - 1 \<and>
      \<not> lru_has k (snd (lru_peek now k s))) \<and>
   (map_of (lru_cache s) k = Some a \<and> lru_tail s = Some tn \<and> tn < length (lru_heap s) \<and>
    n_key (lru_heap s ! tn) \<noteq> k \<and> lru_set now k2 v2 opt2 s = Inr s' \<longrightarrow>
      lru_has k s' \<and> lru_size s \<le> lru_size s') \<and>
   (lru_wf s as \<and> 0 < lru_capacity s \<and> lru_capacity s < lru_size s + 1 \<and>
    map_of (lru_cache s) k = Some a \<and> map_of (lru_cache s) k2 = None \<and>
    n_key (lru_heap s ! last as) \<noteq> k \<longrightarrow>
      (\<exists>s''. lru_set now k2 v2 opt2 s = Inr s'' \<and> lru_has k s'' \<and>
             \<not> lru_has (n_key (lru_heap s ! last as)) s'' \<and> lru_size s'' = lru_size s)) \<and>
   (map_of (lru_cache r) k = Some a \<and> map_of (lru_cache r) k2 = None \<and>
    lru_size r + 1 \<le> lru_capacity r \<longrightarrow>
      (\<exists>r'. lru_set now k2 v2 opt2 r = Inr r' \<and> lru_has k r' \<and> lru_size r' = lru_size r + 1)) \<and>
   (map_of (lfu_cache t) j = Some nd \<and> f_expiry nd = Some d \<and> d \<le> at \<longrightarrow>
      lfu_has j t \<and>
      fst (lfu_get at j t) = None \<and> lfu_size (snd (lfu_get at j t)) = lfu_size t - 1 \<and>
      \<not> lfu_has j (snd (lfu_get at j t)) \<and>
      fst (lfu_peek at j t) = None \<and> lfu_size (snd (lfu_peek at j t)) = lfu_size t - 1 \<and>
      \<not> lfu_has j (snd (lfu_peek at j t))) \<and>
   (map_of (lfu_cache t) j = Some nd \<and> lfu_victim t \<noteq> Some j \<longrightarrow>
      lfu_has j (lfu_set at j2 w2 o2 t) \<and> lfu_size t \<le> lfu_size (lfu_set at j2 w2 o2 t)) \<and>
   (map_of (lfu_cache t) j = Some nd \<and> map_of (lfu_cache t) j2 = None \<and>
    lfu_capacity t \<le> lfu_size t \<and> lfu_victim t = Some v \<and> v \<noteq> j \<and>
    map_of (lfu_cache t) v = Some nv \<longrightarrow>
      lfu_has j (lfu_set at j2 w2 o2 t) \<and> \<not> lfu_has v (lfu_set at j2 w2 o2 t) \<and>
      lfu_size (lfu_set at j2 w2 o2 t) = lfu_size t) \<and>
   (map_of (lfu_cache u) j = Some nu \<and> map_of (lfu_cache u) j2 = None \<and>
    lfu_size u < lfu_capacity u \<longrightarrow>
      lfu_has j (lfu_set at j2 w2 o2 u) \<and>
      lfu_size (lfu_set at j2 w2 o2 u) = lfu_size u + 1) \<and>
   (lru_size ttl1_lru = 1 \<and> fst (lru_get 1500 ''a'' ttl1_lru) = None \<and>
    lru_size (snd (lru_get 1500 ''a'' ttl1_lru)) = 0 \<and>
    lfu_size ttl1_lfu = 1 \<and> fst (lfu_get 1500 ''a'' ttl1_lfu) = None \<and>
    lfu_size (snd (lfu_get 1500 ''a'' ttl1_lfu)) = 0)"
proof -
  have p1: "lru_peek now k s = lru_get now k s" by (simp add: lru_peek_def lru_get_def)
  have p2: "lfu_peek at j t = lfu_get at j t" by (simp add: lfu_peek_def lfu_get_def)
  have c1: "map_of (lru_cache s) k = Some a \<and> n_expiry (lru_heap s ! a) = Some e \<and> e \<le> now \<longrightarrow>
      lru_has k s \<and>
      fst (lru_get now k s) = None \<and> lru_size (snd (lru_get now k s)) = lru_size s - 1 \<and>
      \<not> lru_has k (snd (lru_get now k s)) \<and>
      fst (lru_peek now k s) = None \<and> lru_size (snd (lru_peek now k s)) = lru_size s - 1 \<and>
      \<not> lru_has k (snd (lru_peek now k s))"
  proof (intro impI, elim conjE)
    assume h: "map_of (lru_cache s) k = Some a" "n_expiry (lru_heap s ! a) = Some e" "e \<le> now"
    have "lru_get now k s = (None, snd (lru_delete k s))"
      using h by (simp add: lru_get_def lru_getOrDeleteIfExpired_def lru_deleteIfExpired_def
          is_expired_def)
    then show "lru_has k s \<and>
      fst (lru_get now k s) = None \<and> lru_size (snd (lru_get now k s)) = lru_size s - 1 \<and>
      \<not> lru_has k (snd (lru_get now k s)) \<and>
      fst (lru_peek now k s) = None \<and> lru_size (snd (lru_peek now k s)) = lru_size s - 1 \<and>
      \<not> lru_has k (snd (lru_peek now k s))"
      unfolding p1 using lru_delete_present[OF h(1)] h(1) by (simp add: lru_has_def)
  qed
  have c2: "map_of (lru_cache s) k = Some a \<and> lru_tail s = Some tn \<and> tn < length (lru_heap s) \<and>
    n_key (lru_heap s ! tn) \<noteq> k \<and> lru_set now k2 v2 opt2 s = Inr s' \<longrightarrow>
      lru_has k s' \<and> lru_size s \<le> lru_size s'"
  proof (intro impI, elim conjE)
    assume "map_of (lru_cache s) k = Some a" "lru_tail s = Some tn" "tn < length (lru_heap s)"
      "n_key (lru_heap s ! tn) \<noteq> k" "lru_set now k2 v2 opt2 s = Inr s'"
    then show "lru_has k s' \<and> lru_size s \<le> lru_size s'"
      by (rule lru_set_keeps_non_tail_entry)
  qed
  have c3: "lru_wf s as \<and> 0 < lru_capacity s \<and> lru_capacity s < lru_size s + 1 \<and>
    map_of (lru_cache s) k = Some a \<and> map_of (lru_cache s) k2 = None \<and>
    n_key (lru_heap s ! last as) \<noteq> k \<longrightarrow>
      (\<exists>s''. lru_set now k2 v2 opt2 s = Inr s'' \<and> lru_has k s'' \<and>
             \<not> lru_has (n_key (lru_heap s ! last as)) s'' \<and> lru_size s'' = lru_size s)"
  proof (intro impI, elim conjE)
    assume "lru_wf s as" "0 < lru_capacity s" "lru_capacity s < lru_size s + 1"
      "map_of (lru_cache s) k = Some a" "map_of (lru_cache s) k2 = None"
      "n_key (lru_heap s ! last as) \<noteq> k"
    then show "\<exists>s''. lru_set now k2 v2 opt2 s = Inr s'' \<and> lru_has k s'' \<and>
             \<not> lru_has (n_key (lru_heap s ! last as)) s'' \<and> lru_size s'' = lru_size s"
      by (rule lru_set_full_keeps_non_tail_entry)
  qed
  have c4: "map_of (lru_cache r) k = Some a \<and> map_of (lru_cache r) k2 = None \<and>
    lru_size r + 1 \<le> lru_capacity r \<longrightarrow>
      (\<exists>r'. lru_set now k2 v2 opt2 r = Inr r' \<and> lru_has k r' \<and> lru_size r' = lru_size r + 1)"
  proof (intro impI, elim conjE)
    assume h: "map_of (lru_cache r) k = Some a" "map_of (lru_cache r) k2 = None"
      "lru_size r + 1 \<le> lru_capacity r"
    from lru_set_other_keeps_entry[OF h, of now v2 opt2]
    obtain r' where "lru_set now k2 v2 opt2 r = Inr r'" "map_of (lru_cache r') k = Some a"
      "lru_size r' = lru_size r + 1" by blast
    then have "lru_set now k2 v2 opt2 r = Inr r' \<and> lru_has k r' \<and> lru_size r' = lru_size r + 1"
      by (simp add: lru_has_def)
    then show "\<exists>r'. lru_set now k2 v2 opt2 r = Inr r' \<and> lru_has k r' \<and>
                 lru_size r' = lru_size r + 1" ..
  qed
  have c5: "map_of (lfu_cache t) j = Some nd \<and> f_expiry nd = Some d \<and> d \<le> at \<longrightarrow>
      lfu_has j t \<and>
      fst (lfu_get at j t) = None \<and> lfu_size (snd (lfu_get at j t)) = lfu_size t - 1 \<and>
      \<not> lfu_has j (snd (lfu_get at j t)) \<and>
      fst (lfu_peek at j t) = None \<and> lfu_size (snd (lfu_peek at j t)) = lfu_size t - 1 \<and>
      \<not> lfu_has j (snd (lfu_peek at j t))"
  proof (intro impI, elim conjE)
    assume h: "map_of (lfu_cache t) j = Some nd" "f_expiry nd = Some d" "d \<le> at"
    have "lfu_get at j t = (None, snd (lfu_delete j t))"
      using h by (simp add: lfu_get_def lfu_getOrDeleteIfExpired_def lfu_deleteIfExpired_def
          is_expired_def)
    then show "lfu_has j t \<and>
      fst (lfu_get at j t) = None \<and> lfu_size (snd (lfu_get at j t)) = lfu_size t - 1 \<and>
      \<not> lfu_has j (snd (lfu_get at j t)) \<and>
      fst (lfu_peek at j t) = None \<and> lfu_size (snd (lfu_peek at j t)) = lfu_size t - 1 \<and>
      \<not> lfu_has j (snd (lfu_peek at j t))"
      unfolding p2 using lfu_delete_present[OF h(1)] h(1) by (simp add: lfu_has_def)
  qed
  have c6: "map_of (lfu_cache t) j = Some nd \<and> lfu_victim t \<noteq> Some j \<longrightarrow>
      lfu_has j (lfu_set at j2 w2 o2 t) \<and> lfu_size t \<le> lfu_size (lfu_set at j2 w2 o2 t)"
  proof (intro impI, elim conjE)
    assume "map_of (lfu_cache t) j = Some nd" "lfu_victim t \<noteq> Some j"
    then show "lfu_has j (lfu_set at j2 w2 o2 t) \<and> lfu_size t \<le> lfu_size (lfu_set at j2 w2 o2 t)"
      by (rule lfu_set_keeps_non_victim_entry)
  qed
  have c7: "map_of (lfu_cache t) j = Some nd \<and> map_of (lfu_cache t) j2 = None \<and>
    lfu_capacity t \<le> lfu_size t \<and> lfu_victim t = Some v \<and> v \<noteq> j \<and>
    map_of (lfu_cache t) v = Some nv \<longrightarrow>
      lfu_has j (lfu_set at j2 w2 o2 t) \<and> \<not> lfu_has v (lfu_set at j2 w2 o2 t) \<and>
      lfu_size (lfu_set at j2 w2 o2 t) = lfu_size t"
  proof (intro impI, elim conjE)
    assume h: "map_of (lfu_cache t) j = Some nd" "map_of (lfu_cache t) j2 = None"
      "lfu_capacity t \<le> lfu_size t" "lfu_victim t = Some v" "v \<noteq> j"
      "map_of (lfu_cache t) v = Some nv"
    have "j \<noteq> j2" "v \<noteq> j2" using h(1,2,6) by auto
    then show "lfu_has j (lfu_set at j2 w2 o2 t) \<and> \<not> lfu_has v (lfu_set at j2 w2 o2 t) \<and>
      lfu_size (lfu_set at j2 w2 o2 t) = lfu_size t"
      using lfu_set_full_evicts_victim[OF h(2,3,4,6), of at w2 o2] h(1,5)
      by (simp add: lfu_has_def)
  qed
  have c8: "map_of (lfu_cache u) j = Some nu \<and> map_of (lfu_cache u) j2 = None \<and>
    lfu_size u < lfu_capacity u \<longrightarrow>
      lfu_has j (lfu_set at j2 w2 o2 u) \<and>
      lfu_size (lfu_set at j2 w2 o2 u) = lfu_size u + 1"
  proof (intro impI, elim conjE)
    assume h: "map_of (lfu_cache u) j = Some nu" "map_of (lfu_cache u) j2 = None"
      "lfu_size u < lfu_capacity u"
    show "lfu_has j (lfu_set at j2 w2 o2 u) \<and>
      lfu_size (lfu_set at j2 w2 o2 u) = lfu_size u + 1"
      using lfu_set_other_keeps_entry[OF h, of at w2 o2] by (simp add: lfu_has_def)
  qed
  have c9: "lru_size ttl1_lru = 1 \<and> fst (lru_get 1500 ''a'' ttl1_lru) = None \<and>
    lru_size (snd (lru_get 1500 ''a'' ttl1_lru)) = 0 \<and>
    lfu_size ttl1_lfu = 1 \<and> fst (lfu_get 1500 ''a'' ttl1_lfu) = None \<and>
    lfu_size (snd (lfu_get 1500 ''a'' ttl1_lfu)) = 0"
    by (simp add: ttl1_lru_eq ttl1_lfu_eq lru_unfold lfu_unfold shared_unfold)
  show ?thesis
    by (rule conjI[OF c1 conjI[OF c2 conjI[OF c3 conjI[OF c4 conjI[OF c5 conjI[OF c6
          conjI[OF c7 conjI[OF c8 c9]]]]]]]])
qed

text \<open>
  A full cache of capacity two, written at 0 with \<^verbatim>\<open>set(a, 1, {maxAge: 1000})\<close> and
  \<^verbatim>\<open>set(b, 2)\<close>, with \<open>a\<close> read at 500. At 1500 the entry \<open>a\<close> has expired and \<open>b\<close> is
  served; \<^verbatim>\<open>set(c, 3)\<close> at 1500 evicts \<open>b\<close> and keeps \<open>a\<close>, with \<^verbatim>\<open>size\<close> still 2, and
  \<^verbatim>\<open>get(a)\<close> at 1500 is absent and brings \<^verbatim>\<open>size\<close> to 1. In the cache that holds only
  \<open>a\<close>, \<^verbatim>\<open>set(c, 3)\<close> at 1500 brings \<^verbatim>\<open>size\<close> to 2.
\<close>

theorem expired_entry_purged_on_touch_witness:
  "(map_of (lru_cache ttl_full_lru) ''a'' = Some 0 \<and>
    n_expiry (lru_heap ttl_full_lru ! 0) = Some 1000 \<and> (1000 :: int) \<le> 1500) \<and>
   (lru_tail ttl_full_lru = Some 1 \<and> 1 < length (lru_heap ttl_full_lru) \<and>
    n_key (lru_heap ttl_full_lru ! 1) = ''b'' \<and> ''b'' \<noteq> ''a'' \<and>
    lru_set 1500 ''c'' 3 None ttl_full_lru = Inr (projr (lru_set 1500 ''c'' 3 None ttl_full_lru))) \<and>
   (lru_wf ttl_full_lru [0, 1] \<and> 0 < lru_capacity ttl_full_lru \<and>
    lru_capacity ttl_full_lru < lru_size ttl_full_lru + 1 \<and>
    map_of (lru_cache ttl_full_lru) ''c'' = None \<and> last [0, 1 :: nat] = 1) \<and>
   (map_of (lru_cache ttl1_lru) ''a'' = Some 0 \<and> map_of (lru_cache ttl1_lru) ''c'' = None \<and>
    lru_size ttl1_lru + 1 \<le> lru_capacity ttl1_lru) \<and>
   (map_of (lfu_cache ttl_full_lfu) ''a'' =
      Some \<lparr>f_key = ''a'', f_val = 1, f_freq = 2, f_expiry = Some 1000\<rparr> \<and>
    map_of (lfu_cache ttl_full_lfu) ''b'' =
      Some \<lparr>f_key = ''b'', f_val = 2, f_freq = 1, f_expiry = None\<rparr> \<and>
    map_of (lfu_cache ttl_full_lfu) ''c'' = None \<and>
    lfu_capacity ttl_full_lfu \<le> lfu_size ttl_full_lfu \<and>
    lfu_victim ttl_full_lfu = Some ''b'') \<and>
   (map_of (lfu_cache ttl1_lfu) ''a'' =
      Some \<lparr>f_key = ''a'', f_val = 1, f_freq = 1, f_expiry = Some 1000\<rparr> \<and>
    map_of (lfu_cache ttl1_lfu) ''c'' = None \<and> lfu_size ttl1_lfu < lfu_capacity ttl1_lfu) \<and>
   lru_size ttl_full_lru = 2 \<and> lru_has ''a'' ttl_full_lru \<and>
   fst (lru_get 1500 ''b'' ttl_full_lru) = Some 2 \<and>
   fst (lru_get 1500 ''a'' ttl_full_lru) = None \<and>
   lru_size (snd (lru_get 1500 ''a'' ttl_full_lru)) = 1 \<and>
   \<not> lru_has ''a'' (snd (lru_get 1500 ''a'' ttl_full_lru)) \<and>
   fst (lru_peek 1500 ''a'' ttl_full_lru) = None \<and>
   lru_size (snd (lru_peek 1500 ''a'' ttl_full_lru)) = 1 \<and>
   lru_has ''a'' (projr (lru_set 1500 ''c'' 3 None ttl_full_lru)) \<and>
   (\<exists>s'. lru_set 1500 ''c'' 3 None ttl_full_lru = Inr s' \<and> lru_has ''a'' s' \<and>
         \<not> lru_has ''b'' s' \<and> lru_size s' = 2) \<and>
   (\<exists>r'. lru_set 1500 ''c'' 3 None ttl1_lru = Inr r' \<and> lru_has ''a'' r' \<and> lru_size r' = 2) \<and>
   lfu_size ttl_full_lfu = 2 \<and> lfu_has ''a'' ttl_full_lfu \<and>
   fst (lfu_get 1500 ''b'' ttl_full_lfu) = Some 2 \<and>
   fst (lfu_get 1500 ''a'' ttl_full_lfu) = None \<and>
   lfu_size (snd (lfu_get 1500 ''a'' ttl_full_lfu)) = 1 \<and>
   \<not> lfu_has ''a'' (snd (lfu_get 1500 ''a'' ttl_full_lfu)) \<and>
   fst (lfu_peek 1500 ''a'' ttl_full_lfu) = None \<and>
   lfu_size (snd (lfu_peek 1500 ''a'' ttl_full_lfu)) = 1 \<and>
   lfu_has ''a'' (lfu_set 1500 ''c'' 3 None ttl_full_lfu) \<and>
   \<not> lfu_has ''b'' (lfu_set 1500 ''c'' 3 None ttl_full_lfu) \<and>
   lfu_size (lfu_set 1500 ''c'' 3 None ttl_full_lfu) = 2 \<and>
   lfu_has ''a'' (lfu_set 1500 ''c'' 3 None ttl1_lfu) \<and>
   lfu_size (lfu_set 1500 ''c'' 3 None ttl1_lfu) = 2"
proof -
  let ?F = "ttl_full_lru"
  let ?G = "ttl_full_lfu"
  let ?na = "\<lparr>f_key = ''a'', f_val = 1 :: int, f_freq = 2, f_expiry = Some 1000\<rparr>"
  let ?nb = "\<lparr>f_key = ''b'', f_val = 2 :: int, f_freq = 1, f_expiry = None\<rparr>"
  let ?n1 = "\<lparr>f_key = ''a'', f_val = 1 :: int, f_freq = 1, f_expiry = Some 1000\<rparr>"
  have h1: "map_of (lru_cache ?F) ''a'' = Some 0" "n_expiry (lru_heap ?F ! 0) = Some 1000"
    "(1000 :: int) \<le> 1500"
    by (simp_all add: ttl_full_lru_eq)
  have h2: "lru_tail ?F = Some 1" "1 < length (lru_heap ?F)" "n_key (lru_heap ?F ! 1) = ''b''"
    "''b'' \<noteq> ''a''"
    by (simp_all add: ttl_full_lru_eq)
  have h2r: "lru_set 1500 ''c'' 3 None ?F = Inr (projr (lru_set 1500 ''c'' 3 None ?F))"
    by (simp add: ttl_full_lru_eq lru_unfold shared_unfold)
  have h3: "lru_wf ?F [0, 1]" "0 < lru_capacity ?F" "lru_capacity ?F < lru_size ?F + 1"
    "map_of (lru_cache ?F) ''c'' = None" "last [0, 1 :: nat] = 1"
    using ttl_full_lru_wf by (simp_all add: ttl_full_lru_eq)
  have h4: "map_of (lru_cache ttl1_lru) ''a'' = Some 0" "map_of (lru_cache ttl1_lru) ''c'' = None"
    "lru_size ttl1_lru + 1 \<le> lru_capacity ttl1_lru"
    by (simp_all add: ttl1_lru_eq)
  have h5: "map_of (lfu_cache ?G) ''a'' = Some ?na" "map_of (lfu_cache ?G) ''b'' = Some ?nb"
    "map_of (lfu_cache ?G) ''c'' = None" "lfu_capacity ?G \<le> lfu_size ?G"
    "lfu_victim ?G = Some ''b''"
    by (simp_all add: ttl_full_lfu_eq lfu_victim_def)
  have h6: "map_of (lfu_cache ttl1_lfu) ''a'' = Some ?n1" "map_of (lfu_cache ttl1_lfu) ''c'' = None"
    "lfu_size ttl1_lfu < lfu_capacity ttl1_lfu"
    by (simp_all add: ttl1_lfu_eq)
  have z: "lru_size ?F = 2" "lfu_size ?G = 2" "lru_size ttl1_lru = 1" "lfu_size ttl1_lfu = 1"
    by (simp_all add: ttl_full_lru_eq ttl_full_lfu_eq ttl1_lru_eq ttl1_lfu_eq)
  have live: "fst (lru_get 1500 ''b'' ?F) = Some 2" "fst (lfu_get 1500 ''b'' ?G) = Some 2"
    by (simp_all add: ttl_full_lru_eq ttl_full_lfu_eq lru_unfold lfu_unfold shared_unfold)
  note T = expired_entry_purged_on_touch[where s = ?F and k = "''a''" and a = 0 and e = 1000
      and now = 1500 and tn = 1 and ?k2.0 = "''c''" and ?v2.0 = 3 and ?opt2.0 = None
      and s' = "projr (lru_set 1500 ''c'' 3 None ?F)" and as = "[0, 1]" and r = ttl1_lru
      and t = ?G and j = "''a''" and nd = ?na and d = 1000 and at = 1500
      and ?j2.0 = "''c''" and ?w2.0 = 3 and ?o2.0 = None and v = "''b''" and nv = ?nb
      and u = ttl1_lfu and nu = ?n1]
  have c1: "lru_has ''a'' ?F \<and>
      fst (lru_get 1500 ''a'' ?F) = None \<and> lru_size (snd (lru_get 1500 ''a'' ?F)) = lru_size ?F - 1 \<and>
      \<not> lru_has ''a'' (snd (lru_get 1500 ''a'' ?F)) \<and>
      fst (lru_peek 1500 ''a'' ?F) = None \<and> lru_size (snd (lru_peek 1500 ''a'' ?F)) = lru_size ?F - 1 \<and>
      \<not> lru_has ''a'' (snd (lru_peek 1500 ''a'' ?F))"
    using T[THEN conjunct1] h1 by blast
  have c2: "lru_has ''a'' (projr (lru_set 1500 ''c'' 3 None ?F))"
    using T[THEN conjunct2, THEN conjunct1] h1(1) h2 h2r by simp
  have c3: "\<exists>s'. lru_set 1500 ''c'' 3 None ?F = Inr s' \<and> lru_has ''a'' s' \<and>
         \<not> lru_has ''b'' s' \<and> lru_size s' = lru_size ?F"
    using T[THEN conjunct2, THEN conjunct2, THEN conjunct1] h1(1) h2(3,4) h3 by simp
  have c4: "\<exists>r'. lru_set 1500 ''c'' 3 None ttl1_lru = Inr r' \<and> lru_has ''a'' r' \<and>
         lru_size r' = lru_size ttl1_lru + 1"
    using T[THEN conjunct2, THEN conjunct2, THEN conjunct2, THEN conjunct1] h4 by blast
  note T5 = T[THEN conjunct2, THEN conjunct2, THEN conjunct2, THEN conjunct2]
  have c5: "lfu_has ''a'' ?G \<and>
      fst (lfu_get 1500 ''a'' ?G) = None \<and> lfu_size (snd (lfu_get 1500 ''a'' ?G)) = lfu_size ?G - 1 \<and>
      \<not> lfu_has ''a'' (snd (lfu_get 1500 ''a'' ?G)) \<and>
      fst (lfu_peek 1500 ''a'' ?G) = None \<and> lfu_size (snd (lfu_peek 1500 ''a'' ?G)) = lfu_size ?G - 1 \<and>
      \<not> lfu_has ''a'' (snd (lfu_peek 1500 ''a'' ?G))"
    using T5[THEN conjunct1] h5(1) by simp
  have c7: "lfu_has ''a'' (lfu_set 1500 ''c'' 3 None ?G) \<and>
      \<not> lfu_has ''b'' (lfu_set 1500 ''c'' 3 None ?G) \<and>
      lfu_size (lfu_set 1500 ''c'' 3 None ?G) = lfu_size ?G"
    using T5[THEN conjunct2, THEN conjunct2, THEN conjunct1] h5 by simp
  have c8: "lfu_has ''a'' (lfu_set 1500 ''c'' 3 None ttl1_lfu) \<and>
      lfu_size (lfu_set 1500 ''c'' 3 None ttl1_lfu) = lfu_size ttl1_lfu + 1"
    using T5[THEN conjunct2, THEN conjunct2, THEN conjunct2, THEN conjunct1] h6 by blast
  show ?thesis
    using h1 h2 h2r h3 h4 h5 h6 z(1,2) live c1[unfolded z] c2 c3[unfolded z] c4[unfolded z]
      c5[unfolded z] c7[unfolded z] c8[unfolded z]
    by simp
qed

subsection \<open>C10: a \<^verbatim>\<open>maxAge\<close> of 0\<close>

text \<open>
  What holds of C10: the constructors replace a \<^verbatim>\<open>maxAge\<close> of 0 by infinity, under
  which \<^verbatim>\<open>set\<close> computes no expiry; a per-call \<^verbatim>\<open>maxAge\<close> of 0 makes \<^verbatim>\<open>set\<close>
  compute the expiry \<open>now\<close>, and an entry with that expiry is expired at every clock
  reading from \<open>now\<close> on.
\<close>

lemma maxAge_zero_at_the_two_interfaces:
  "lru_maxAge (LRUCache \<lparr>maxSize = c, maxAge = Some (Fin 0), onEviction = b\<rparr>) = PosInf \<and>
   lfu_maxAge (LFUCache \<lparr>maxSize = c, maxAge = Some (Fin 0), onEviction = b\<rparr>) = PosInf \<and>
   expiry_of now (entry_maxAge None PosInf) = None \<and>
   expiry_of now (entry_maxAge (Some (Fin 0)) m) = Some now \<and>
   is_expired (Some now) now' = (now \<le> now') \<and>
   is_expired None now' = (MAX_SAFE_INTEGER \<le> now')"
  by (simp add: LRUCache_def LFUCache_def maxAge_or_infinity_def entry_maxAge_def expiry_of_def
      is_expired_def)

text \<open>
  C10 says that a per-call \<^verbatim>\<open>set(key, value, {maxAge: 0})\<close> makes the entry expired on
  its next access. In the LRU cache this fails for a key that is already present, whose
  expiry \<^verbatim>\<open>set\<close> does not touch: after \<^verbatim>\<open>set(a,1); set(a,2,{maxAge: 0})\<close> at 0,
  \<^verbatim>\<open>get(a)\<close> at 1 returns 2. The LFU cache returns absent.
\<close>

theorem lru_overwrite_ignores_maxAge_zero:
  "(\<exists>s. lru_run [Call_set 0 ''a'' (1 :: int) None, Call_set 0 ''a'' 2 (Some (Fin 0))]
          (LRUCache (opts 3)) = Inr s \<and>
        n_expiry (lru_heap s ! 0) = None \<and> fst (lru_get 1 ''a'' s) = Some 2) \<and>
   (\<exists>t. lfu_run [Call_set 0 ''a'' (1 :: int) None, Call_set 0 ''a'' 2 (Some (Fin 0))]
          (LFUCache (opts 3)) = Inr t \<and>
        fst (lfu_get 1 ''a'' t) = None)"
  by (simp add: lru_unfold lfu_unfold shared_unfold)


end
